theory Spec2Isabelle
  imports Main "HOL-Library.Multiset" "HOL-Library.Char_ord" "HOL-Library.List_Lexorder"
begin

section \<open>Python values used by the sorting logic\<close>

text \<open>
  A Python \<open>str\<close> is modelled as a \<^typ>\<open>string\<close>; the character \<open>c\<close> stands for the
  Python character with code point \<^term>\<open>of_char c :: nat\<close>, so the model covers the
  strings over U+0000 .. U+00FF. String comparison in Python is lexicographic on code
  points, which is the order of \<open>HOL-Library.List_Lexorder\<close> over \<open>HOL-Library.Char_ord\<close>.
  Exceptions are values of \<open>error\<close>; a function that can raise returns \<open>error + 'a\<close>.
\<close>

datatype error = ValueError | TypeError | BadZipFile | OSError | OtherException

text \<open>One element of a natural-sort key: \<open>Union[int, str]\<close>.\<close>

datatype seg = I int | S string

subsection \<open>Character classes\<close>

text \<open>
  \<open>\d\<close> in a \<open>str\<close> pattern matches the characters of category Nd; below U+0100 these
  are the ASCII digits.
\<close>

definition re_digit :: "char \<Rightarrow> bool" where
  "re_digit c \<longleftrightarrow> c \<in> set ''0123456789''"

text \<open>
  \<open>str.isdigit\<close> holds of the characters with Numeric_Type Decimal or Digit; below
  U+0100 these are the ASCII digits and the superscripts U+00B2, U+00B3 and U+00B9.
\<close>

definition chr_isdigit :: "char \<Rightarrow> bool" where
  "chr_isdigit c \<longleftrightarrow> re_digit c \<or> c \<in> {CHR 0xB2, CHR 0xB3, CHR 0xB9}"

definition isdigit :: "string \<Rightarrow> bool" where
  "isdigit s \<longleftrightarrow> s \<noteq> [] \<and> list_all chr_isdigit s"

definition digit_val :: "char \<Rightarrow> int" where
  "digit_val c = int (of_char c) - 48"

definition digits_val :: "string \<Rightarrow> int" where
  "digits_val s = foldl (\<lambda>n c. 10 * n + digit_val c) 0 s"

text \<open>
  \<open>int(chunk)\<close> for a chunk of \<open>isdigit\<close> characters: the decimal value when every
  character is a decimal digit, \<open>ValueError\<close> otherwise (a superscript digit has no
  decimal value). The interpreter's configurable limit on the number of digits is not
  modelled.
\<close>

definition py_int :: "string \<Rightarrow> error + int" where
  "py_int s =
     (if s \<noteq> [] \<and> list_all re_digit s then Inr (digits_val s) else Inl ValueError)"

subsection \<open>\<open>re.split(r'(\d+)', text)\<close>\<close>

text \<open>
  The split alternates the text between two matches (possibly empty) and the matched
  digit run (the capture group keeps it), and ends with the text after the last match.
\<close>

function re_split :: "string \<Rightarrow> string list" where
  "re_split s =
     (let pre = takeWhile (\<lambda>c. \<not> re_digit c) s;
          rest = dropWhile (\<lambda>c. \<not> re_digit c) s
      in if rest = [] then [pre]
         else pre # takeWhile re_digit rest # re_split (dropWhile re_digit rest))"
  by pat_completeness auto
termination
proof (relation "measure length")
  show "wf (measure length)" by simp
next
  fix s pre rest :: string
  assume r: "rest = dropWhile (\<lambda>c. \<not> re_digit c) s" and ne: "rest \<noteq> []"
  from ne obtain c cs where cs: "rest = c # cs" by (cases rest) auto
  from r cs have "re_digit c"
    by (metis hd_dropWhile list.sel(1) ne)
  then have "length (dropWhile re_digit rest) < length rest"
    using cs by (simp add: le_imp_less_Suc length_dropWhile_le)
  moreover have "length rest \<le> length s"
    using r by (simp add: length_dropWhile_le)
  ultimately show "(dropWhile re_digit rest, s) \<in> measure length" by simp
qed

declare re_split.simps [simp del]

subsection \<open>\<open>natural_sort_key\<close>\<close>

definition convert :: "string \<Rightarrow> error + seg" where
  "convert chunk =
     (if isdigit chunk
      then (case py_int chunk of Inl e \<Rightarrow> Inl e | Inr n \<Rightarrow> Inr (I n))
      else Inr (S chunk))"

text \<open>A list comprehension over a function that can raise: the first exception ends it.\<close>

fun map_result :: "('a \<Rightarrow> error + 'b) \<Rightarrow> 'a list \<Rightarrow> error + 'b list" where
  "map_result f [] = Inr []"
| "map_result f (x # xs) =
     (case f x of
        Inl e \<Rightarrow> Inl e
      | Inr y \<Rightarrow> (case map_result f xs of Inl e \<Rightarrow> Inl e | Inr ys \<Rightarrow> Inr (y # ys)))"

definition natural_sort_key :: "string \<Rightarrow> error + seg list" where
  "natural_sort_key text = map_result convert (re_split text)"

subsection \<open>Comparison of keys\<close>

text \<open>
  \<open>a < b\<close> on two key elements: integers by value, strings by code points, and
  \<open>TypeError\<close> for an integer against a string.
\<close>

fun seg_lt :: "seg \<Rightarrow> seg \<Rightarrow> error + bool" where
  "seg_lt (I a) (I b) = Inr (a < b)"
| "seg_lt (S a) (S b) = Inr (a < b)"
| "seg_lt _ _ = Inl TypeError"

text \<open>
  \<open>a < b\<close> on two lists: the first position where the elements are not equal decides,
  by \<open><\<close> on the two elements there; without such a position the shorter list is smaller.
\<close>

fun key_lt :: "seg list \<Rightarrow> seg list \<Rightarrow> error + bool" where
  "key_lt [] [] = Inr False"
| "key_lt [] (y # ys) = Inr True"
| "key_lt (x # xs) [] = Inr False"
| "key_lt (x # xs) (y # ys) = (if x = y then key_lt xs ys else seg_lt x y)"

definition str_lt :: "string \<Rightarrow> string \<Rightarrow> error + bool" where
  "str_lt a b = Inr (a < b)"

subsection \<open>\<open>list.sort(key=...)\<close>\<close>

text \<open>
  \<open>list.sort\<close> first calls the key function on every element, in order (an exception
  there ends the sort), then sorts the elements by their keys with \<open><\<close> alone, stably.
  The model is a stable insertion sort on the (key, element) pairs that propagates an
  exception of a comparison.
\<close>

fun insert_lt :: "('k \<Rightarrow> 'k \<Rightarrow> error + bool) \<Rightarrow> 'k \<times> 'a \<Rightarrow> ('k \<times> 'a) list
    \<Rightarrow> error + ('k \<times> 'a) list" where
  "insert_lt lt p [] = Inr [p]"
| "insert_lt lt p (q # qs) =
     (case lt (fst q) (fst p) of
        Inl e \<Rightarrow> Inl e
      | Inr True \<Rightarrow> (case insert_lt lt p qs of Inl e \<Rightarrow> Inl e | Inr r \<Rightarrow> Inr (q # r))
      | Inr False \<Rightarrow> Inr (p # q # qs))"

fun isort :: "('k \<Rightarrow> 'k \<Rightarrow> error + bool) \<Rightarrow> ('k \<times> 'a) list \<Rightarrow> error + ('k \<times> 'a) list" where
  "isort lt [] = Inr []"
| "isort lt (p # ps) =
     (case isort lt ps of Inl e \<Rightarrow> Inl e | Inr ss \<Rightarrow> insert_lt lt p ss)"

definition py_sort :: "('k \<Rightarrow> 'k \<Rightarrow> error + bool) \<Rightarrow> ('a \<Rightarrow> error + 'k) \<Rightarrow> 'a list
    \<Rightarrow> error + 'a list" where
  "py_sort lt keyf xs =
     (case map_result keyf xs of
        Inl e \<Rightarrow> Inl e
      | Inr ks \<Rightarrow> (case isort lt (zip ks xs) of
                    Inl e \<Rightarrow> Inl e
                  | Inr ps \<Rightarrow> Inr (map snd ps)))"

subsection \<open>\<open>Path(x).name\<close>\<close>

text \<open>\<open>str.split(sep)\<close> for a one-character separator.\<close>

fun split_on :: "char \<Rightarrow> string \<Rightarrow> string list" where
  "split_on c [] = [[]]"
| "split_on c (x # xs) =
     (if x = c then [] # split_on c xs
      else (case split_on c xs of [] \<Rightarrow> [[x]] | w # ws \<Rightarrow> (x # w) # ws))"

text \<open>
  A POSIX path is parsed into its components, dropping the empty ones and the \<open>.\<close>
  ones; \<open>name\<close> is the last component, or the empty string when there is none.
\<close>

definition path_parts :: "string \<Rightarrow> string list" where
  "path_parts p = filter (\<lambda>x. x \<noteq> [] \<and> x \<noteq> ''.'') (split_on CHR ''/'' p)"

definition path_name :: "string \<Rightarrow> string" where
  "path_name p = (case path_parts p of [] \<Rightarrow> [] | x # xs \<Rightarrow> last (x # xs))"

text \<open>
  A \<open>Path\<close> value holds a root (\<open>/\<close>, \<open>//\<close> for exactly two leading slashes, or none)
  and the components after it. \<open>joinpath p s\<close> is \<open>p / s\<close>: an absolute \<open>s\<close> replaces \<open>p\<close>.
\<close>

record ppath =
  root :: string
  tail :: "string list"

definition startswith :: "string \<Rightarrow> string \<Rightarrow> bool" where
  "startswith s prefix \<longleftrightarrow> take (length prefix) s = prefix"

definition path_root :: "string \<Rightarrow> string" where
  "path_root s =
     (if startswith s ''//'' \<and> \<not> startswith s ''///'' then ''//''
      else if startswith s ''/'' then ''/'' else [])"

definition parse_path :: "string \<Rightarrow> ppath" where
  "parse_path s = \<lparr>root = path_root s, tail = path_parts s\<rparr>"

definition joinpath :: "ppath \<Rightarrow> string \<Rightarrow> ppath" where
  "joinpath p s =
     (let q = parse_path s
      in if root q \<noteq> [] then q else \<lparr>root = root p, tail = tail p @ tail q\<rparr>)"

fun join_with :: "string \<Rightarrow> string list \<Rightarrow> string" where
  "join_with sep [] = []"
| "join_with sep [x] = x"
| "join_with sep (x # y # ys) = x @ sep @ join_with sep (y # ys)"

definition path_str :: "ppath \<Rightarrow> string" where
  "path_str p = (if root p = [] \<and> tail p = [] then ''.'' else root p @ join_with ''/'' (tail p))"

definition name :: "ppath \<Rightarrow> string" where
  "name p = (case tail p of [] \<Rightarrow> [] | x # xs \<Rightarrow> last (x # xs))"

subsection \<open>\<open>sort_images\<close>\<close>

text \<open>
  The loop appends each file to \<open>priority_files\<close> or to \<open>normal_files\<close> in the order of
  the input, which gives the two filters below. The two lists are sorted one after the
  other, so an exception of the first sort ends the function.
\<close>

definition is_priority :: "string \<Rightarrow> string \<Rightarrow> bool" where
  "is_priority priority_chars img =
     (let filename = path_name img
      in if priority_chars \<noteq> [] then list_ex (\<lambda>char. startswith filename [char]) priority_chars
         else False)"

definition get_natural_sort_key :: "string \<Rightarrow> error + seg list" where
  "get_natural_sort_key x = natural_sort_key (path_name x)"

definition get_name_key :: "string \<Rightarrow> error + string" where
  "get_name_key x = Inr (path_name x)"

definition sort_images :: "string list \<Rightarrow> bool \<Rightarrow> string \<Rightarrow> error + string list" where
  "sort_images image_files use_natural_sort priority_chars =
     (let priority_files = filter (is_priority priority_chars) image_files;
          normal_files = filter (\<lambda>img. \<not> is_priority priority_chars img) image_files
      in if use_natural_sort
         then (case py_sort key_lt get_natural_sort_key priority_files of
                 Inl e \<Rightarrow> Inl e
               | Inr ps \<Rightarrow> (case py_sort key_lt get_natural_sort_key normal_files of
                             Inl e \<Rightarrow> Inl e
                           | Inr ns \<Rightarrow> Inr (ps @ ns)))
         else (case py_sort str_lt get_name_key priority_files of
                 Inl e \<Rightarrow> Inl e
               | Inr ps \<Rightarrow> (case py_sort str_lt get_name_key normal_files of
                             Inl e \<Rightarrow> Inl e
                           | Inr ns \<Rightarrow> Inr (ps @ ns))))"

section \<open>Extraction and conversion\<close>

subsection \<open>Constants and \<open>is_image_file\<close>\<close>

definition IMAGE_EXTENSIONS :: "string set" where
  "IMAGE_EXTENSIONS = {''.jpg'', ''.jpeg'', ''.png'', ''.gif'', ''.bmp'', ''.tiff'', ''.webp''}"

definition MAX_EXTRACTED_SIZE_BYTES :: nat where
  "MAX_EXTRACTED_SIZE_BYTES = 500 * 1024 * 1024"

definition MAX_FILES_IN_ZIP :: nat where
  "MAX_FILES_IN_ZIP = 10000"

text \<open>
  \<open>suffix\<close> of a name: from its last dot on, unless that dot is the first or the last
  character of the name (or there is none).
\<close>

definition suffix :: "string \<Rightarrow> string" where
  "suffix nm =
     (if CHR ''.'' \<notin> set nm then []
      else (let i = length nm - 1 - length (takeWhile (\<lambda>c. c \<noteq> CHR ''.'') (rev nm))
            in if 0 < i \<and> i < length nm - 1 then drop i nm else []))"

text \<open>\<open>str.lower\<close> below U+0100: the letters A-Z and U+00C0 .. U+00DE without U+00D7.\<close>

definition lower_char :: "char \<Rightarrow> char" where
  "lower_char c =
     (let n = of_char c :: nat
      in if (65 \<le> n \<and> n \<le> 90) \<or> (192 \<le> n \<and> n \<le> 222 \<and> n \<noteq> 215) then char_of (n + 32) else c)"

definition lower :: "string \<Rightarrow> string" where
  "lower s = map lower_char s"

definition is_image_file :: "string \<Rightarrow> bool" where
  "is_image_file filename \<longleftrightarrow> lower (suffix (path_name filename)) \<in> IMAGE_EXTENSIONS"

subsection \<open>The archive\<close>

text \<open>
  A \<open>ZipInfo\<close>: the declared name and the declared uncompressed size of an entry;
  \<open>is_dir\<close> holds of a name that ends with a slash.
\<close>

record zip_info =
  filename :: string
  file_size :: nat

definition is_dir :: "zip_info \<Rightarrow> bool" where
  "is_dir file_info \<longleftrightarrow> filename file_info \<noteq> [] \<and> last (filename file_info) = CHR ''/''"

text \<open>\<open>'..' in s\<close>: two dots in a row somewhere in the string.\<close>

fun has_dotdot :: "string \<Rightarrow> bool" where
  "has_dotdot (a # b # cs) \<longleftrightarrow> (a = CHR ''.'' \<and> b = CHR ''.'') \<or> has_dotdot (b # cs)"
| "has_dotdot _ \<longleftrightarrow> False"

text \<open>What the program prints, one constructor for each message.\<close>

datatype event =
    Warn_suspicious_path string
  | Warn_no_images
  | Extracting_image nat nat string
  | Error_invalid_zip
  | Security_error
  | Error_extracting
  | Converting_images nat
  | Converting_image nat nat string
  | Warn_cannot_process string
  | Error_no_valid_images
  | Saving_pdf nat
  | Created_pdf nat
  | Error_creating_pdf

text \<open>
  What a call of \<open>extract_images_from_zip\<close> leaves: the list it returns, the files that
  \<open>zip_ref.extract\<close> created, and the messages printed.
\<close>

record extraction =
  returned :: "ppath list"
  written :: "ppath list"
  printed :: "event list"

subsection \<open>\<open>extract_images_from_zip\<close>\<close>

text \<open>
  The first loop. It ends with the entries kept, or with the \<open>ValueError\<close> raised when
  the running total passes the limit; the messages printed so far are kept either way.
\<close>

fun first_pass :: "zip_info list \<Rightarrow> nat \<Rightarrow> zip_info list \<Rightarrow> event list
    \<Rightarrow> event list \<times> (error + zip_info list)" where
  "first_pass [] total_extracted_size image_file_infos out = (out, Inr image_file_infos)"
| "first_pass (file_info # rest) total_extracted_size image_file_infos out =
     (if is_dir file_info then first_pass rest total_extracted_size image_file_infos out
      else if has_dotdot (filename file_info) \<or> startswith (filename file_info) ''/''
      then first_pass rest total_extracted_size image_file_infos
             (out @ [Warn_suspicious_path (filename file_info)])
      else if is_image_file (filename file_info)
      then (if total_extracted_size + file_size file_info > MAX_EXTRACTED_SIZE_BYTES
            then (out, Inl ValueError)
            else first_pass rest (total_extracted_size + file_size file_info)
                   (image_file_infos @ [file_info]) out)
      else first_pass rest total_extracted_size image_file_infos out)"

text \<open>
  \<open>zip_ref.extract(member, path)\<close> writes the member below \<open>path\<close>, at the member's name
  without its empty, \<open>.\<close> and \<open>..\<close> components; \<open>path\<close> itself is taken as it is given.
\<close>

definition extract_target :: "ppath \<Rightarrow> string \<Rightarrow> ppath" where
  "extract_target path member =
     \<lparr>root = root path,
      tail = tail path @ filter (\<lambda>x. x \<noteq> [] \<and> x \<noteq> ''.'' \<and> x \<noteq> ''..'') (split_on CHR ''/'' member)\<rparr>"

text \<open>
  The second loop. \<open>extract_raises\<close> says for which entries \<open>zip_ref.extract\<close> raises
  (a damaged member, a full disk), what it raises, and whether the target file had
  been created by then: the library opens the member, then opens the target for
  writing, then copies the data, so a failure of the copy leaves a file at the target.
  The directories that \<open>zip_ref.extract\<close> creates above the target are not recorded.
\<close>

fun second_pass :: "ppath \<Rightarrow> (zip_info \<Rightarrow> (error \<times> bool) option) \<Rightarrow> nat \<Rightarrow> nat
    \<Rightarrow> zip_info list
    \<Rightarrow> string list \<Rightarrow> ppath list \<Rightarrow> event list
    \<Rightarrow> (string list \<times> ppath list \<times> event list) \<times> error option" where
  "second_pass temp_dir extract_raises total_images idx [] image_files wr out =
     ((image_files, wr, out), None)"
| "second_pass temp_dir extract_raises total_images idx (file_info # rest) image_files wr out =
     (let out1 = out @ [Extracting_image idx total_images (path_name (filename file_info))]
      in case extract_raises file_info of
           Some (e, created) \<Rightarrow>
             ((image_files,
               (if created then wr @ [extract_target temp_dir (filename file_info)] else wr),
               out1), Some e)
         | None \<Rightarrow>
             second_pass temp_dir extract_raises total_images (idx + 1) rest
               (image_files @ [path_str (joinpath temp_dir (filename file_info))])
               (wr @ [extract_target temp_dir (filename file_info)]) out1)"

text \<open>The three \<open>except\<close> clauses: each prints its message and returns the empty list.\<close>

definition handler :: "error \<Rightarrow> ppath list \<Rightarrow> event list \<Rightarrow> extraction" where
  "handler e wr out =
     \<lparr>returned = [], written = wr,
      printed = out @ [case e of BadZipFile \<Rightarrow> Error_invalid_zip
                       | ValueError \<Rightarrow> Security_error
                       | _ \<Rightarrow> Error_extracting]\<rparr>"

text \<open>
  \<open>archive\<close> is what opening the file gives: its entries, or the exception raised.
\<close>

definition extract_images_from_zip :: "error + zip_info list \<Rightarrow> ppath
    \<Rightarrow> (zip_info \<Rightarrow> (error \<times> bool) option) \<Rightarrow> bool \<Rightarrow> string \<Rightarrow> extraction" where
  "extract_images_from_zip archive temp_dir extract_raises use_natural_sort priority_chars =
     (case archive of
        Inl e \<Rightarrow> handler e [] []
      | Inr filelist \<Rightarrow>
          (case first_pass filelist 0 [] [] of
             (out, Inl e) \<Rightarrow> handler e [] out
           | (out, Inr image_file_infos) \<Rightarrow>
               (let total_images = length image_file_infos
                in if total_images > MAX_FILES_IN_ZIP then handler ValueError [] out
                   else if total_images = 0
                   then \<lparr>returned = [], written = [], printed = out @ [Warn_no_images]\<rparr>
                   else (case second_pass temp_dir extract_raises total_images 1
                                image_file_infos [] [] out of
                           ((image_files, wr, out'), Some e) \<Rightarrow> handler e wr out'
                         | ((image_files, wr, out'), None) \<Rightarrow>
                             (case sort_images image_files use_natural_sort priority_chars of
                                Inl e \<Rightarrow> handler e wr out'
                              | Inr sorted_images \<Rightarrow>
                                  \<lparr>returned = map parse_path sorted_images, written = wr,
                                   printed = out'\<rparr>)))))"

subsection \<open>\<open>convert_images_to_pdf\<close>\<close>

text \<open>
  An opened image has a mode; its pixel data stay opaque. A prepared image is an image
  after the normalisation the loop applies: pasted on a white background through its
  alpha channel, converted to RGB, or kept as it is. The list \<open>images\<close> holds prepared
  images; what the encoder makes of one of them (one page, or one page for each frame)
  is not modelled.
\<close>

datatype mode = Mode_RGBA | Mode_LA | Mode_P | Mode_RGB | Mode_other

record image =
  mode :: mode
  pixels :: nat

datatype prepared = On_white image | To_rgb image | Kept image

definition normalise :: "image \<Rightarrow> prepared" where
  "normalise img =
     (if mode img \<in> {Mode_RGBA, Mode_LA, Mode_P} then On_white img
      else if mode img \<noteq> Mode_RGB then To_rgb img
      else Kept img)"

text \<open>
  The loop over the paths. \<open>open_image\<close> stands for \<open>Image.open\<close> and the operations on
  the opened image: it gives the image or the exception raised. An \<open>OSError\<close> is caught
  in the loop, any other exception leaves it.
\<close>

fun compose :: "(ppath \<Rightarrow> error + image) \<Rightarrow> nat \<Rightarrow> nat \<Rightarrow> ppath list \<Rightarrow> prepared list
    \<Rightarrow> event list \<Rightarrow> (prepared list \<times> event list) \<times> error option" where
  "compose open_image total_images idx [] images out = ((images, out), None)"
| "compose open_image total_images idx (img_path # rest) images out =
     (let out1 = out @ [Converting_image idx total_images (name img_path)]
      in case open_image img_path of
           Inr img \<Rightarrow>
             compose open_image total_images (idx + 1) rest (images @ [normalise img]) out1
         | Inl OSError \<Rightarrow>
             compose open_image total_images (idx + 1) rest images
               (out1 @ [Warn_cannot_process (name img_path)])
         | Inl e \<Rightarrow> ((images, out1), Some e))"

text \<open>
  What a call of \<open>convert_images_to_pdf\<close> leaves: the value returned, the content of the
  output path afterwards (\<open>None\<close>: no file), and the messages printed.
\<close>

record 'f conversion =
  ok :: bool
  dest :: "'f option"
  messages :: "event list"

text \<open>
  \<open>save\<close> stands for \<open>first_image.save(output_pdf, 'PDF', save_all=True,
  append_images=remaining_images)\<close>: from the first prepared image, the other ones and the
  content of the output path before the call it gives the exception raised, if any, and
  the content of the output path after the call. The pixel data of an image that was
  kept as it is are read only here, so a file that opens in the loop can still make
  \<open>save\<close> raise.
\<close>

definition convert_images_to_pdf :: "(ppath \<Rightarrow> error + image)
    \<Rightarrow> (prepared \<Rightarrow> prepared list \<Rightarrow> 'f option \<Rightarrow> error option \<times> 'f option)
    \<Rightarrow> ppath list \<Rightarrow> 'f option \<Rightarrow> 'f conversion" where
  "convert_images_to_pdf open_image save image_paths old_file =
     (if image_paths = [] then \<lparr>ok = False, dest = old_file, messages = []\<rparr>
      else (case compose open_image (length image_paths) 1 image_paths []
                   [Converting_images (length image_paths)] of
              ((images, out), Some e) \<Rightarrow>
                \<lparr>ok = False, dest = old_file, messages = out @ [Error_creating_pdf]\<rparr>
            | ((images, out), None) \<Rightarrow>
                (if images = []
                 then \<lparr>ok = False, dest = old_file, messages = out @ [Error_no_valid_images]\<rparr>
                 else (let out2 = out @ [Saving_pdf (length images)];
                           first_image = hd images;
                           remaining_images = (if length images > 1 then tl images else [])
                       in case save first_image remaining_images old_file of
                            (Some e, after) \<Rightarrow>
                              \<lparr>ok = False, dest = after, messages = out2 @ [Error_creating_pdf]\<rparr>
                          | (None, after) \<Rightarrow>
                              \<lparr>ok = True, dest = after,
                               messages = out2 @ [Created_pdf (length images)]\<rparr>))))"

section \<open>Notions used to state the properties\<close>

text \<open>
  The shape of a key that \<open>natural_sort_key\<close> returns: strings and integers alternate,
  starting and ending with a string.
\<close>

fun key_shape :: "seg list \<Rightarrow> bool" where
  "key_shape [S s] = True"
| "key_shape (S s # I n # ks) = key_shape ks"
| "key_shape _ = False"

text \<open>
  \<open>precedes x y out\<close>: no occurrence of \<open>x\<close> in \<open>out\<close> is at or after the first
  occurrence of \<open>y\<close>.
\<close>

definition precedes :: "'a \<Rightarrow> 'a \<Rightarrow> 'a list \<Rightarrow> bool" where
  "precedes x y out \<longleftrightarrow> x \<notin> set (dropWhile (\<lambda>z. z \<noteq> y) out)"

text \<open>The natural key of an element whose key function returns.\<close>

definition nkey :: "string \<Rightarrow> seg list" where
  "nkey x = projr (get_natural_sort_key x)"

text \<open>
  \<open>natural_le a b\<close>: both names have a natural key, and the key of \<open>b\<close> is not smaller
  than the key of \<open>a\<close> under the comparison of the program.
\<close>

definition natural_le :: "string \<Rightarrow> string \<Rightarrow> bool" where
  "natural_le a b \<longleftrightarrow>
     (case (get_natural_sort_key a, get_natural_sort_key b) of
        (Inr ka, Inr kb) \<Rightarrow> key_lt kb ka = Inr False
      | _ \<Rightarrow> False)"

text \<open>
  The check of the first loop on a declared name: two dots in a row, or a leading slash.
\<close>

definition suspicious :: "string \<Rightarrow> bool" where
  "suspicious fn \<longleftrightarrow> has_dotdot fn \<or> startswith fn ''/''"

text \<open>
  An entry the first loop keeps when the size limit allows: not a directory, not
  suspicious, with an image extension.
\<close>

definition qualifying :: "zip_info \<Rightarrow> bool" where
  "qualifying file_info \<longleftrightarrow>
     \<not> is_dir file_info \<and> \<not> suspicious (filename file_info) \<and> is_image_file (filename file_info)"




text \<open>
  For the proofs the key elements are ordered totally: Python's order on two integers and
  on two strings, with every integer below every string. \<open>seg_lt\<close> and \<open>key_lt\<close> above
  are the comparisons of the program; the two agree on the keys \<open>natural_sort_key\<close>
  returns (\<open>key_lt_shape\<close> below), where an integer never meets a string.
\<close>

instantiation seg :: linorder
begin

fun less_eq_seg :: "seg \<Rightarrow> seg \<Rightarrow> bool" where
  "less_eq_seg (I a) (I b) \<longleftrightarrow> a \<le> b"
| "less_eq_seg (S a) (S b) \<longleftrightarrow> a \<le> b"
| "less_eq_seg (I a) (S b) \<longleftrightarrow> True"
| "less_eq_seg (S a) (I b) \<longleftrightarrow> False"

definition less_seg :: "seg \<Rightarrow> seg \<Rightarrow> bool" where
  "less_seg x y \<longleftrightarrow> x \<le> y \<and> \<not> y \<le> (x::seg)"

instance
proof
  fix x y z :: seg
  show "x < y \<longleftrightarrow> x \<le> y \<and> \<not> y \<le> x" by (simp add: less_seg_def)
  show "x \<le> x" by (cases x) simp_all
  show "x \<le> y \<Longrightarrow> y \<le> z \<Longrightarrow> x \<le> z"
    by (cases x; cases y; cases z) simp_all
  show "x \<le> y \<Longrightarrow> y \<le> x \<Longrightarrow> x = y"
    by (cases x; cases y) simp_all
  show "x \<le> y \<or> y \<le> x"
    by (cases x; cases y) auto
qed

end

section \<open>Lemmas on the sorting logic\<close>

lemma less_seg_simps [simp]:
  "I a < I b \<longleftrightarrow> a < b" "S s < S t \<longleftrightarrow> s < t" "I a < S t" "\<not> S s < I b"
  by (auto simp: less_seg_def)

lemma map_result_total:
  "(\<And>x. x \<in> set xs \<Longrightarrow> f x = Inr (g x)) \<Longrightarrow> map_result f xs = Inr (map g xs)"
  by (induction xs) simp_all

lemma map_result_Inr:
  "map_result f xs = Inr ys \<Longrightarrow> ys = map (\<lambda>x. projr (f x)) xs \<and> (\<forall>x\<in>set xs. f x = Inr (projr (f x)))"
  by (induction xs arbitrary: ys) (auto split: sum.splits)

lemma map_result_length: "map_result f xs = Inr ys \<Longrightarrow> length ys = length xs"
  by (induction xs arbitrary: ys) (auto split: sum.splits)

lemma map_result_append:
  "map_result f (xs @ ys) =
     (case map_result f xs of Inl e \<Rightarrow> Inl e
      | Inr us \<Rightarrow> (case map_result f ys of Inl e \<Rightarrow> Inl e | Inr vs \<Rightarrow> Inr (us @ vs)))"
  by (induction xs) (auto split: sum.splits)

lemma insert_lt_mset:
  "insert_lt lt p qs = Inr r \<Longrightarrow> mset r = add_mset p (mset qs)"
  by (induction qs arbitrary: r) (auto split: sum.splits bool.splits if_splits)

lemma isort_mset: "isort lt ps = Inr r \<Longrightarrow> mset r = mset ps"
  by (induction ps arbitrary: r) (auto split: sum.splits dest: insert_lt_mset)

lemma py_sort_mset: "py_sort lt keyf xs = Inr out \<Longrightarrow> mset out = mset xs"
proof -
  assume a: "py_sort lt keyf xs = Inr out"
  then obtain ks ps where ks: "map_result keyf xs = Inr ks"
    and ps: "isort lt (zip ks xs) = Inr ps" and out: "out = map snd ps"
    by (auto simp: py_sort_def split: sum.splits)
  have "length ks = length xs" using ks by (rule map_result_length)
  then have "map snd (zip ks xs) = xs" by simp
  moreover have "mset ps = mset (zip ks xs)" using ps by (rule isort_mset)
  ultimately show ?thesis using out by (metis mset_map)
qed

lemma insert_lt_insort:
  "(\<And>q. q \<in> set qs \<Longrightarrow> lt (fst q) (fst p) = Inr (fst q < fst p))
   \<Longrightarrow> insert_lt lt p qs = Inr (insort_key fst p qs)"
proof (induction qs)
  case Nil
  then show ?case by simp
next
  case (Cons q qs)
  have h: "lt (fst q) (fst p) = Inr (fst q < fst p)" using Cons.prems by simp
  have ih: "insert_lt lt p qs = Inr (insort_key fst p qs)"
    using Cons.IH Cons.prems by simp
  show ?case
  proof (cases "fst q < fst p")
    case True
    then have "\<not> fst p \<le> fst q" by simp
    then show ?thesis using True h ih by simp
  next
    case False
    then have "fst p \<le> fst q" by (rule leI)
    then show ?thesis using False h by simp
  qed
qed

lemma isort_sort_key:
  "(\<And>p q. p \<in> set ps \<Longrightarrow> q \<in> set ps \<Longrightarrow> lt (fst p) (fst q) = Inr (fst p < fst q))
   \<Longrightarrow> isort lt ps = Inr (sort_key fst ps)"
proof (induction ps)
  case Nil
  then show ?case by simp
next
  case (Cons p ps)
  have "isort lt ps = Inr (sort_key fst ps)" using Cons by simp
  moreover have "insert_lt lt p (sort_key fst ps) = Inr (insort_key fst p (sort_key fst ps))"
    by (rule insert_lt_insort) (simp add: Cons.prems)
  ultimately show ?case by (simp add: sort_key_def)
qed

lemma insort_key_decorate:
  "insort_key fst (k x, x) (map (\<lambda>x. (k x, x)) ys) = map (\<lambda>x. (k x, x)) (insort_key k x ys)"
  by (induction ys) simp_all

lemma sort_key_decorate:
  "sort_key fst (map (\<lambda>x. (k x, x)) xs) = map (\<lambda>x. (k x, x)) (sort_key k xs)"
  by (induction xs) (simp_all add: insort_key_decorate)

lemma py_sort_sort_key:
  assumes keys: "\<And>x. x \<in> set xs \<Longrightarrow> keyf x = Inr (k x)"
    and lt: "\<And>x y. x \<in> set xs \<Longrightarrow> y \<in> set xs \<Longrightarrow> lt (k x) (k y) = Inr (k x < k y)"
  shows "py_sort lt keyf xs = Inr (sort_key k xs)"
proof -
  have ks: "map_result keyf xs = Inr (map k xs)"
    using keys by (rule map_result_total)
  have z: "zip (map k xs) xs = map (\<lambda>x. (k x, x)) xs"
    by (induction xs) simp_all
  have "isort lt (map (\<lambda>x. (k x, x)) xs) = Inr (sort_key fst (map (\<lambda>x. (k x, x)) xs))"
    by (rule isort_sort_key) (auto simp: lt)
  then show ?thesis
    by (simp add: py_sort_def ks z sort_key_decorate comp_def)
qed

lemma re_split_concat: "concat (re_split s) = s"
proof (induction s rule: re_split.induct)
  case (1 s)
  let ?pre = "takeWhile (\<lambda>c. \<not> re_digit c) s"
  let ?rest = "dropWhile (\<lambda>c. \<not> re_digit c) s"
  show ?case
  proof (cases "?rest = []")
    case True
    then have "re_split s = [s]"
      by (subst re_split.simps) (simp add: Let_def)
    then show ?thesis by simp
  next
    case False
    then have eq: "re_split s = ?pre # takeWhile re_digit ?rest # re_split (dropWhile re_digit ?rest)"
      by (subst re_split.simps) (simp add: Let_def)
    have "concat (re_split (dropWhile re_digit ?rest)) = dropWhile re_digit ?rest"
      using False by (intro "1.IH") simp_all
    then have "concat (re_split s) = ?pre @ (takeWhile re_digit ?rest @ dropWhile re_digit ?rest)"
      using eq by simp
    then show ?thesis by (simp only: takeWhile_dropWhile_id)
  qed
qed

lemma re_split_odd: "odd (length (re_split s))"
proof (induction s rule: re_split.induct)
  case (1 s)
  let ?rest = "dropWhile (\<lambda>c. \<not> re_digit c) s"
  show ?case
  proof (cases "?rest = []")
    case True
    then have "re_split s = [s]"
      by (subst re_split.simps) (simp add: Let_def)
    then show ?thesis by simp
  next
    case False
    then have eq: "re_split s = takeWhile (\<lambda>c. \<not> re_digit c) s # takeWhile re_digit ?rest
        # re_split (dropWhile re_digit ?rest)"
      by (subst re_split.simps) (simp add: Let_def)
    have "odd (length (re_split (dropWhile re_digit ?rest)))"
      using False by (intro "1.IH") simp_all
    then show ?thesis using eq by simp
  qed
qed

lemma convert_nondigit:
  assumes "\<forall>c\<in>set pre. \<not> re_digit c" and "convert pre = Inr k"
  shows "k = S pre"
proof (cases "isdigit pre")
  case True
  then have "pre \<noteq> []" by (simp add: isdigit_def)
  then have "\<not> list_all re_digit pre"
    using assms(1) by (cases pre) simp_all
  then have "py_int pre = Inl ValueError" by (simp add: py_int_def)
  then show ?thesis using True assms(2) by (simp add: convert_def)
next
  case False
  then show ?thesis using assms(2) by (simp add: convert_def)
qed

lemma convert_digits:
  assumes "d \<noteq> []" and "\<forall>c\<in>set d. re_digit c"
  shows "convert d = Inr (I (digits_val d))"
proof -
  have a: "list_all re_digit d" using assms(2) by (simp add: list_all_iff)
  then have "list_all chr_isdigit d" by (simp add: list_all_iff chr_isdigit_def)
  then have "isdigit d" using assms(1) by (simp add: isdigit_def)
  then show ?thesis using a assms(1) by (simp add: convert_def py_int_def digits_val_def)
qed

lemma natural_sort_key_shape: "natural_sort_key t = Inr k \<Longrightarrow> key_shape k"
proof (induction t arbitrary: k rule: re_split.induct)
  case (1 s)
  let ?pre = "takeWhile (\<lambda>c. \<not> re_digit c) s"
  let ?rest = "dropWhile (\<lambda>c. \<not> re_digit c) s"
  have pre: "\<forall>c\<in>set ?pre. \<not> re_digit c" by (auto dest: set_takeWhileD)
  show ?case
  proof (cases "?rest = []")
    case True
    then have "re_split s = [?pre]"
      by (subst re_split.simps) (simp add: Let_def)
    then have "convert ?pre = Inr (hd k) \<and> k = [hd k]"
      using "1.prems" by (auto simp: natural_sort_key_def split: sum.splits)
    then show ?thesis using convert_nondigit [OF pre]
      by (metis key_shape.simps(1))
  next
    case False
    let ?d = "takeWhile re_digit ?rest"
    let ?r = "dropWhile re_digit ?rest"
    have eq: "re_split s = ?pre # ?d # re_split ?r"
      using False by (subst re_split.simps) (simp add: Let_def)
    have "re_digit (hd ?rest)" using False by (metis hd_dropWhile)
    then have dne: "?d \<noteq> []" using False by (cases ?rest) simp_all
    have dd: "\<forall>c\<in>set ?d. re_digit c" by (auto dest: set_takeWhileD)
    have cd: "convert ?d = Inr (I (digits_val ?d))" using dne dd by (rule convert_digits)
    from "1.prems" eq obtain a ks where a: "convert ?pre = Inr a"
      and ks: "natural_sort_key ?r = Inr ks" and k: "k = a # I (digits_val ?d) # ks"
      by (auto simp: natural_sort_key_def cd split: sum.splits)
    have "a = S ?pre" using pre a by (rule convert_nondigit)
    moreover have "key_shape ks" using False ks by (intro "1.IH") simp_all
    ultimately show ?thesis using k by simp
  qed
qed

lemma key_lt_shape: "key_shape a \<Longrightarrow> key_shape b \<Longrightarrow> key_lt a b = Inr (a < b)"
proof (induction a arbitrary: b rule: key_shape.induct)
  case (1 s)
  then show ?case by (cases b rule: key_shape.cases) auto
next
  case (2 s n ks)
  show ?case
  proof (cases b rule: key_shape.cases)
    case (2 t m kb)
    then have "key_shape kb" using "2.prems" by simp
    then have "key_lt ks kb = Inr (ks < kb)" using "2.IH" "2.prems" by simp
    then show ?thesis using 2 by auto
  qed (use "2.prems" in auto)
qed simp_all

lemma key_shape_nth:
  "key_shape k \<Longrightarrow> i < length k \<Longrightarrow> (even i \<longrightarrow> (\<exists>s. k ! i = S s)) \<and> (odd i \<longrightarrow> (\<exists>n. k ! i = I n))"
proof (induction k arbitrary: i rule: key_shape.induct)
  case (1 s)
  then show ?case by simp
next
  case (2 s n ks)
  show ?case
  proof (cases i)
    case 0
    then show ?thesis by simp
  next
    case (Suc j)
    show ?thesis
    proof (cases j)
      case 0
      then show ?thesis using Suc by simp
    next
      case (Suc l)
      then have "l < length ks" using \<open>i = Suc j\<close> "2.prems" by simp
      then show ?thesis using "2.IH" "2.prems" Suc \<open>i = Suc j\<close> by simp
    qed
  qed
qed simp_all

lemma re_split_digit_run:
  assumes d: "d \<noteq> []" "\<forall>c\<in>set d. re_digit c"
    and s: "s = [] \<or> \<not> re_digit (hd s)"
  shows "p = [] \<or> \<not> re_digit (last p) \<Longrightarrow> re_split (p @ d @ s) = re_split p @ d # re_split s"
proof (induction p rule: re_split.induct)
  case (1 p)
  let ?N = "\<lambda>c. \<not> re_digit c"
  let ?pre = "takeWhile ?N p"
  let ?rest = "dropWhile ?N p"
  have hd_d: "re_digit (hd d)" using d by (cases d) simp_all
  have tw_ds: "takeWhile re_digit (d @ s) = d"
    using d s by (cases s) (simp_all add: takeWhile_append2)
  have dw_ds: "dropWhile re_digit (d @ s) = s"
    using d s by (cases s) (simp_all add: dropWhile_append2)
  have tw_Nd: "takeWhile ?N (d @ s) = []" using hd_d d by (cases d) simp_all
  have dw_Nd: "dropWhile ?N (d @ s) = d @ s" using hd_d d by (cases d) simp_all
  show ?case
  proof (cases "?rest = []")
    case True
    then have allN: "\<forall>c\<in>set p. ?N c"
      by (metis dropWhile_eq_Nil_conv)
    then have rp: "re_split p = [p]"
      using True by (subst re_split.simps) (simp add: Let_def)
    have t: "takeWhile ?N (p @ d @ s) = p"
      using allN tw_Nd by (simp add: takeWhile_append2)
    have dr: "dropWhile ?N (p @ d @ s) = d @ s"
      using allN dw_Nd by (simp add: dropWhile_append2)
    have "re_split (p @ d @ s) = p # d # re_split s"
      using d by (subst re_split.simps) (simp add: Let_def t dr tw_ds dw_ds)
    then show ?thesis using rp by simp
  next
    case False
    let ?d0 = "takeWhile re_digit ?rest"
    let ?r0 = "dropWhile re_digit ?rest"
    have rp: "re_split p = ?pre # ?d0 # re_split ?r0"
      using False by (subst re_split.simps) (simp add: Let_def)
    have pne: "p \<noteq> []" using False by auto
    have ex: "\<exists>c\<in>set p. \<not> ?N c"
      using False by (metis dropWhile_eq_Nil_conv)
    have r0ne: "?r0 \<noteq> []"
    proof
      assume "?r0 = []"
      then have "\<forall>c\<in>set ?rest. re_digit c" by (metis dropWhile_eq_Nil_conv)
      moreover have "last ?rest = last p"
        using False by (metis takeWhile_dropWhile_id last_appendR)
      moreover have "last ?rest \<in> set ?rest" using False by simp
      ultimately have "re_digit (last p)" by metis
      then show False using "1.prems" pne by simp
    qed
    have lastr0: "last ?r0 = last p"
      using r0ne False by (metis takeWhile_dropWhile_id last_appendR)
    have exr: "\<exists>c\<in>set ?rest. \<not> re_digit c"
      using r0ne by (metis dropWhile_eq_Nil_conv)
    have t: "takeWhile ?N (p @ d @ s) = ?pre"
      using ex by (metis takeWhile_append1)
    have dr: "dropWhile ?N (p @ d @ s) = ?rest @ d @ s"
      using ex by (metis dropWhile_append1)
    have t2: "takeWhile re_digit (?rest @ d @ s) = ?d0"
      using exr by (metis takeWhile_append1)
    have d2: "dropWhile re_digit (?rest @ d @ s) = ?r0 @ d @ s"
      using exr by (metis dropWhile_append1)
    have step: "re_split (p @ d @ s) = ?pre # ?d0 # re_split (?r0 @ d @ s)"
      using False by (subst re_split.simps) (simp add: Let_def t dr t2 d2)
    have "re_split (?r0 @ d @ s) = re_split ?r0 @ d # re_split s"
      using False r0ne lastr0 "1.prems" pne by (intro "1.IH") simp_all
    then show ?thesis using step rp by simp
  qed
qed

lemma map_result_append_Inr:
  "map_result f (xs @ ys) = Inr k \<Longrightarrow>
     \<exists>us vs. map_result f xs = Inr us \<and> map_result f ys = Inr vs \<and> k = us @ vs"
  by (simp add: map_result_append split: sum.splits)

lemma map_result_Cons_Inr:
  "map_result f (x # xs) = Inr k \<Longrightarrow>
     \<exists>u us. f x = Inr u \<and> map_result f xs = Inr us \<and> k = u # us"
  by (simp split: sum.splits)

lemma natural_sort_key_digit_run:
  assumes d: "d \<noteq> []" "\<forall>c\<in>set d. re_digit c"
    and s: "s = [] \<or> \<not> re_digit (hd s)"
    and p: "p = [] \<or> \<not> re_digit (last p)"
    and k: "natural_sort_key (p @ d @ s) = Inr k"
  shows "\<exists>kp ks. natural_sort_key p = Inr kp \<and> natural_sort_key s = Inr ks
           \<and> k = kp @ I (digits_val d) # ks"
proof -
  have "re_split (p @ d @ s) = re_split p @ d # re_split s"
    using d s p by (rule re_split_digit_run)
  then have "map_result convert (re_split p @ d # re_split s) = Inr k"
    using k by (simp add: natural_sort_key_def)
  from map_result_append_Inr [OF this]
  obtain kp vs where kp: "map_result convert (re_split p) = Inr kp"
    and vs: "map_result convert (d # re_split s) = Inr vs" and k1: "k = kp @ vs"
    by blast
  from map_result_Cons_Inr [OF vs]
  obtain u ks where u: "convert d = Inr u"
    and ks: "map_result convert (re_split s) = Inr ks" and v: "vs = u # ks"
    by blast
  have "u = I (digits_val d)" using u convert_digits [OF d] by simp
  then show ?thesis using kp ks k1 v by (simp add: natural_sort_key_def)
qed

lemma append_less_append_same: "(xs @ ys < xs @ zs) \<longleftrightarrow> (ys < (zs :: 'a::linorder list))"
  by (induction xs) simp_all

lemma digit_run_key_less:
  assumes d1: "d1 \<noteq> []" "\<forall>c\<in>set d1. re_digit c"
    and d2: "d2 \<noteq> []" "\<forall>c\<in>set d2. re_digit c"
    and s: "s = [] \<or> \<not> re_digit (hd s)"
    and p: "p = [] \<or> \<not> re_digit (last p)"
    and k1: "natural_sort_key (p @ d1 @ s) = Inr k1"
    and k2: "natural_sort_key (p @ d2 @ s) = Inr k2"
    and lt: "digits_val d1 < digits_val d2"
  shows "k1 < k2"
proof -
  obtain kp ks where a: "natural_sort_key p = Inr kp" "natural_sort_key s = Inr ks"
      "k1 = kp @ I (digits_val d1) # ks"
    using natural_sort_key_digit_run [OF d1 s p k1] by blast
  obtain kp' ks' where b: "natural_sort_key p = Inr kp'" "natural_sort_key s = Inr ks'"
      "k2 = kp' @ I (digits_val d2) # ks'"
    using natural_sort_key_digit_run [OF d2 s p k2] by blast
  from a b have "kp' = kp" "ks' = ks" by simp_all
  then show ?thesis using a b lt by (simp add: append_less_append_same)
qed

lemma sorted_precedes:
  "sorted (map k out) \<Longrightarrow> k x < k y \<Longrightarrow> precedes x y out"
proof (induction out)
  case Nil
  then show ?case by (simp add: precedes_def)
next
  case (Cons z zs)
  show ?case
  proof (cases "z = y")
    case True
    have "\<forall>w\<in>set zs. k y \<le> k w" using Cons.prems(1) True by simp
    then have "x \<notin> set zs" using Cons.prems(2) by (auto simp: not_le [symmetric])
    moreover have "x \<noteq> y" using Cons.prems(2) by auto
    ultimately show ?thesis using True by (simp add: precedes_def)
  next
    case False
    then show ?thesis using Cons by (simp add: precedes_def)
  qed
qed

lemma precedes_append:
  assumes "precedes x y ps" and "precedes x y ns" and "y \<in> set ps \<longrightarrow> x \<notin> set ns"
  shows "precedes x y (ps @ ns)"
proof (cases "y \<in> set ps")
  case True
  then have "dropWhile (\<lambda>z. z \<noteq> y) (ps @ ns) = dropWhile (\<lambda>z. z \<noteq> y) ps @ ns"
    by (intro dropWhile_append1 [of y]) simp_all
  then show ?thesis using assms True by (simp add: precedes_def)
next
  case False
  then have "dropWhile (\<lambda>z. z \<noteq> y) (ps @ ns) = dropWhile (\<lambda>z. z \<noteq> y) ns"
    by (intro dropWhile_append2) auto
  then show ?thesis using assms by (simp add: precedes_def)
qed

lemma natural_sort_defined:
  assumes "py_sort key_lt get_natural_sort_key xs = Inr out"
  shows "\<forall>x\<in>set xs. get_natural_sort_key x = Inr (nkey x)"
proof -
  from assms obtain ks where "map_result get_natural_sort_key xs = Inr ks"
    by (auto simp: py_sort_def split: sum.splits)
  then show ?thesis using map_result_Inr [of get_natural_sort_key xs ks]
    by (simp add: nkey_def)
qed

lemma natural_sort_sort_key:
  assumes "\<forall>x\<in>set xs. get_natural_sort_key x = Inr (nkey x)"
  shows "py_sort key_lt get_natural_sort_key xs = Inr (sort_key nkey xs)"
proof (rule py_sort_sort_key)
  fix x assume "x \<in> set xs"
  then show "get_natural_sort_key x = Inr (nkey x)" using assms by simp
next
  fix x y assume "x \<in> set xs" "y \<in> set xs"
  then have "key_shape (nkey x)" "key_shape (nkey y)"
    using assms natural_sort_key_shape by (auto simp: get_natural_sort_key_def)
  then show "key_lt (nkey x) (nkey y) = Inr (nkey x < nkey y)" by (rule key_lt_shape)
qed

lemma natural_sort_result:
  assumes "py_sort key_lt get_natural_sort_key xs = Inr out"
  shows "out = sort_key nkey xs"
  using assms natural_sort_sort_key [OF natural_sort_defined [OF assms]] by simp

lemma name_sort_result: "py_sort str_lt get_name_key xs = Inr (sort_key path_name xs)"
  by (rule py_sort_sort_key) (simp_all add: get_name_key_def str_lt_def)

lemma sort_images_natural:
  "sort_images fs True pc = Inr out \<longleftrightarrow>
     (\<forall>x\<in>set fs. get_natural_sort_key x = Inr (nkey x)) \<and>
     out = sort_key nkey (filter (is_priority pc) fs)
         @ sort_key nkey (filter (\<lambda>x. \<not> is_priority pc x) fs)"
proof
  assume a: "sort_images fs True pc = Inr out"
  then obtain ps ns where ps: "py_sort key_lt get_natural_sort_key (filter (is_priority pc) fs) = Inr ps"
    and ns: "py_sort key_lt get_natural_sort_key (filter (\<lambda>x. \<not> is_priority pc x) fs) = Inr ns"
    and out: "out = ps @ ns"
    by (auto simp: sort_images_def Let_def split: sum.splits)
  have "\<forall>x\<in>set fs. get_natural_sort_key x = Inr (nkey x)"
    using natural_sort_defined [OF ps] natural_sort_defined [OF ns] by auto
  then show "(\<forall>x\<in>set fs. get_natural_sort_key x = Inr (nkey x)) \<and>
     out = sort_key nkey (filter (is_priority pc) fs)
         @ sort_key nkey (filter (\<lambda>x. \<not> is_priority pc x) fs)"
    using natural_sort_result [OF ps] natural_sort_result [OF ns] out by simp
next
  assume a: "(\<forall>x\<in>set fs. get_natural_sort_key x = Inr (nkey x)) \<and>
     out = sort_key nkey (filter (is_priority pc) fs)
         @ sort_key nkey (filter (\<lambda>x. \<not> is_priority pc x) fs)"
  then have "py_sort key_lt get_natural_sort_key (filter (is_priority pc) fs)
      = Inr (sort_key nkey (filter (is_priority pc) fs))"
    by (intro natural_sort_sort_key) simp
  moreover have "py_sort key_lt get_natural_sort_key (filter (\<lambda>x. \<not> is_priority pc x) fs)
      = Inr (sort_key nkey (filter (\<lambda>x. \<not> is_priority pc x) fs))"
    using a by (intro natural_sort_sort_key) simp
  ultimately show "sort_images fs True pc = Inr out"
    using a by (simp add: sort_images_def Let_def)
qed

lemma sort_images_lexical:
  "sort_images fs False pc =
     Inr (sort_key path_name (filter (is_priority pc) fs)
        @ sort_key path_name (filter (\<lambda>x. \<not> is_priority pc x) fs))"
  by (simp add: sort_images_def Let_def name_sort_result)

lemma precedes_absent: "x \<notin> set out \<or> y \<notin> set out \<Longrightarrow> precedes x y out"
proof (cases "y \<in> set out")
  case True
  assume "x \<notin> set out \<or> y \<notin> set out"
  then have "x \<notin> set out" using True by simp
  then show ?thesis by (auto simp: precedes_def dest: set_dropWhileD)
next
  case False
  then have "dropWhile (\<lambda>z. z \<noteq> y) out = []" by (auto simp: dropWhile_eq_Nil_conv)
  then show ?thesis unfolding precedes_def by (simp only: list.set empty_iff not_False_eq_True)
qed

lemma is_priority_first_char:
  "take 1 (path_name x) = take 1 (path_name y) \<Longrightarrow> is_priority pc x = is_priority pc y"
  by (simp add: is_priority_def Let_def startswith_def)

lemma sort_images_digit_run:
  assumes out: "sort_images fs True pc = Inr out"
    and x: "path_name x = p @ d1 @ s" and y: "path_name y = p @ d2 @ s"
    and d1: "d1 \<noteq> []" "list_all re_digit d1" and d2: "d2 \<noteq> []" "list_all re_digit d2"
    and p: "p = [] \<or> \<not> re_digit (last p)" and s: "s = [] \<or> \<not> re_digit (hd s)"
    and lt: "digits_val d1 < digits_val d2"
    and cls: "is_priority pc x = is_priority pc y"
  shows "precedes x y out"
proof (cases "x \<in> set fs \<and> y \<in> set fs")
  case False
  have "mset out = mset fs"
    using out sort_images_natural [of fs pc out] by simp
  then have "set out = set fs" by (rule mset_eq_setD)
  then show ?thesis using False by (intro precedes_absent) auto
next
  case True
  let ?P = "filter (is_priority pc) fs"
  let ?N = "filter (\<lambda>x. \<not> is_priority pc x) fs"
  from out have keys: "\<forall>x\<in>set fs. get_natural_sort_key x = Inr (nkey x)"
    and o: "out = sort_key nkey ?P @ sort_key nkey ?N"
    by (simp_all add: sort_images_natural)
  have "get_natural_sort_key x = Inr (nkey x)" using keys True by blast
  then have kx: "natural_sort_key (p @ d1 @ s) = Inr (nkey x)"
    using x by (simp add: get_natural_sort_key_def)
  have "get_natural_sort_key y = Inr (nkey y)" using keys True by blast
  then have ky: "natural_sort_key (p @ d2 @ s) = Inr (nkey y)"
    using y by (simp add: get_natural_sort_key_def)
  have less: "nkey x < nkey y"
    using d1 d2 s p kx ky lt by (intro digit_run_key_less [of d1 d2 s p]) (simp_all add: list_all_iff)
  have "precedes x y (sort_key nkey ?P)"
    using less by (intro sorted_precedes [of nkey]) simp_all
  moreover have "precedes x y (sort_key nkey ?N)"
    using less by (intro sorted_precedes [of nkey]) simp_all
  moreover have "y \<in> set (sort_key nkey ?P) \<longrightarrow> x \<notin> set (sort_key nkey ?N)"
    using cls by simp
  ultimately show ?thesis unfolding o by (rule precedes_append)
qed

text \<open>
  Claim C1. With natural sort on, whenever \<open>sort_images\<close> returns: of two files of the
  same priority group whose names differ only in one maximal digit run, the one with
  the smaller number comes first (no occurrence of it is at or after the first
  occurrence of the other). In particular a file named \<open>f2\<close> comes before a file named
  \<open>f10\<close>, for every input list and every priority string; the output has the
  elements of the input; and the input \<open>page_10.jpg, page_1.jpg, !cover.jpg\<close> with
  priority character \<open>!\<close> gives \<open>!cover.jpg, page_1.jpg, page_10.jpg\<close>.
\<close>

theorem natural_sort_orders_digit_runs_by_value:
  "(sort_images fs True pc = Inr out \<longrightarrow>
      path_name x = p @ d1 @ s \<longrightarrow> path_name y = p @ d2 @ s \<longrightarrow>
      d1 \<noteq> [] \<longrightarrow> list_all re_digit d1 \<longrightarrow> d2 \<noteq> [] \<longrightarrow> list_all re_digit d2 \<longrightarrow>
      (p = [] \<or> \<not> re_digit (last p)) \<longrightarrow> (s = [] \<or> \<not> re_digit (hd s)) \<longrightarrow>
      digits_val d1 < digits_val d2 \<longrightarrow> is_priority pc x = is_priority pc y \<longrightarrow>
      precedes x y out)
   \<and> (sort_images fs True pc = Inr out \<longrightarrow> path_name x = ''f2'' \<longrightarrow> path_name y = ''f10'' \<longrightarrow>
      precedes x y out)
   \<and> (sort_images fs True pc = Inr out \<longrightarrow> set out = set fs)
   \<and> sort_images [''page_10.jpg'', ''page_1.jpg'', ''!cover.jpg''] True ''!''
       = Inr [''!cover.jpg'', ''page_1.jpg'', ''page_10.jpg'']"
proof (intro conjI impI)
  assume "sort_images fs True pc = Inr out" "path_name x = p @ d1 @ s" "path_name y = p @ d2 @ s"
    "d1 \<noteq> []" "list_all re_digit d1" "d2 \<noteq> []" "list_all re_digit d2"
    "p = [] \<or> \<not> re_digit (last p)" "s = [] \<or> \<not> re_digit (hd s)"
    "digits_val d1 < digits_val d2" "is_priority pc x = is_priority pc y"
  then show "precedes x y out" by (rule sort_images_digit_run)
next
  assume out: "sort_images fs True pc = Inr out" and x: "path_name x = ''f2''"
    and y: "path_name y = ''f10''"
  have cls: "is_priority pc x = is_priority pc y"
    by (rule is_priority_first_char) (simp add: x y)
  have v: "digits_val ''2'' < digits_val ''10''" by (simp add: digits_val_def digit_val_def)
  show "precedes x y out"
    by (rule sort_images_digit_run [OF out, of x "''f''" "''2''" "[]" y "''10''"])
       (simp_all add: x y cls v re_digit_def)
next
  assume "sort_images fs True pc = Inr out"
  then have "mset out = mset fs" using sort_images_natural [of fs pc out] by simp
  then show "set out = set fs" by (rule mset_eq_setD)
next
  show "sort_images [''page_10.jpg'', ''page_1.jpg'', ''!cover.jpg''] True ''!''
       = Inr [''!cover.jpg'', ''page_1.jpg'', ''page_10.jpg'']"
    by code_simp
qed

theorem natural_sort_orders_digit_runs_by_value_witness:
  "precedes ''a/page_2.jpg'' ''page_10.jpg'' [''a/page_2.jpg'', ''b/page_9.jpg'', ''page_10.jpg'']
   \<and> precedes ''f2'' ''f10'' [''f2'', ''f10'']
   \<and> set [''f2'', ''f10''] = set [''f10'', ''f2'']"
proof -
  have o1: "sort_images [''page_10.jpg'', ''a/page_2.jpg'', ''b/page_9.jpg''] True ''!''
      = Inr [''a/page_2.jpg'', ''b/page_9.jpg'', ''page_10.jpg'']" by code_simp
  have x: "path_name ''a/page_2.jpg'' = ''page_'' @ ''2'' @ ''.jpg''" by code_simp
  have y: "path_name ''page_10.jpg'' = ''page_'' @ ''10'' @ ''.jpg''" by code_simp
  have d: "''2'' \<noteq> []" "list_all re_digit ''2''" "''10'' \<noteq> []" "list_all re_digit ''10''"
    by (simp_all add: re_digit_def)
  have ps: "''page_'' = [] \<or> \<not> re_digit (last ''page_'')"
      "''.jpg'' = [] \<or> \<not> re_digit (hd ''.jpg'')"
    by (simp_all add: re_digit_def)
  have v: "digits_val ''2'' < digits_val ''10''" by (simp add: digits_val_def digit_val_def)
  have c: "is_priority ''!'' ''a/page_2.jpg'' = is_priority ''!'' ''page_10.jpg''" by code_simp
  have o2: "sort_images [''f10'', ''f2''] True ''!'' = Inr [''f2'', ''f10'']" by code_simp
  have n: "path_name ''f2'' = ''f2''" "path_name ''f10'' = ''f10''" by code_simp+
  from natural_sort_orders_digit_runs_by_value
    [of "[''page_10.jpg'', ''a/page_2.jpg'', ''b/page_9.jpg'']" "''!''"
        "[''a/page_2.jpg'', ''b/page_9.jpg'', ''page_10.jpg'']" "''a/page_2.jpg''"
        "''page_''" "''2''" "''.jpg''" "''page_10.jpg''" "''10''"]
  have "precedes ''a/page_2.jpg'' ''page_10.jpg'' [''a/page_2.jpg'', ''b/page_9.jpg'', ''page_10.jpg'']"
    using o1 x y d ps v c by blast
  moreover
  from natural_sort_orders_digit_runs_by_value
    [of "[''f10'', ''f2'']" "''!''" "[''f2'', ''f10'']" "''f2''" _ _ _ "''f10''"]
  have "precedes ''f2'' ''f10'' [''f2'', ''f10''] \<and> set [''f2'', ''f10''] = set [''f10'', ''f2'']"
    using o2 n by blast
  ultimately show ?thesis by simp
qed

lemma py_sort_Nil: "py_sort lt keyf [] = Inr []"
  by (simp add: py_sort_def)

lemma sum_case_id: "(case r of Inl e \<Rightarrow> Inl e | Inr v \<Rightarrow> Inr ([] @ v)) = r"
  by (cases r) simp_all

lemma sort_images_split:
  assumes "sort_images fs use_nat pc = Inr out"
  shows "\<exists>ps ns. out = ps @ ns
           \<and> mset ps = mset (filter (is_priority pc) fs)
           \<and> mset ns = mset (filter (\<lambda>x. \<not> is_priority pc x) fs)"
proof (cases use_nat)
  case True
  with assms obtain ps ns
    where "py_sort key_lt get_natural_sort_key (filter (is_priority pc) fs) = Inr ps"
      and "py_sort key_lt get_natural_sort_key (filter (\<lambda>x. \<not> is_priority pc x) fs) = Inr ns"
      and "out = ps @ ns"
    by (auto simp: sort_images_def Let_def split: sum.splits)
  then show ?thesis using py_sort_mset by blast
next
  case False
  with assms obtain ps ns
    where "py_sort str_lt get_name_key (filter (is_priority pc) fs) = Inr ps"
      and "py_sort str_lt get_name_key (filter (\<lambda>x. \<not> is_priority pc x) fs) = Inr ns"
      and "out = ps @ ns"
    by (auto simp: sort_images_def Let_def split: sum.splits)
  then show ?thesis using py_sort_mset by blast
qed

lemma sort_images_mset:
  assumes "sort_images fs use_nat pc = Inr out"
  shows "mset out = mset fs"
proof -
  from sort_images_split [OF assms] obtain ps ns where "out = ps @ ns"
    and "mset ps = mset (filter (is_priority pc) fs)"
    and "mset ns = mset (filter (\<lambda>x. \<not> is_priority pc x) fs)" by blast
  then show ?thesis by simp
qed

lemma sorted_wrt_natural_le:
  assumes "\<forall>x\<in>set fs. get_natural_sort_key x = Inr (nkey x)"
  shows "sorted_wrt natural_le (sort_key nkey fs)"
proof -
  have "sorted (map nkey (sort_key nkey fs))" by simp
  then have s: "sorted_wrt (\<lambda>a b. nkey a \<le> nkey b) (sort_key nkey fs)"
    by (simp only: sorted_map)
  show ?thesis
  proof (rule sorted_wrt_mono_rel [OF _ s])
    fix a b
    assume a: "a \<in> set (sort_key nkey fs)" and b: "b \<in> set (sort_key nkey fs)"
      and le: "nkey a \<le> nkey b"
    have ka: "get_natural_sort_key a = Inr (nkey a)" and kb: "get_natural_sort_key b = Inr (nkey b)"
      using a b assms by simp_all
    then have "key_shape (nkey a)" "key_shape (nkey b)"
      using natural_sort_key_shape by (auto simp: get_natural_sort_key_def)
    then have "key_lt (nkey b) (nkey a) = Inr (nkey b < nkey a)" by (intro key_lt_shape)
    then show "natural_le a b" using ka kb le by (simp add: natural_le_def not_less)
  qed
qed

text \<open>
  Claim C2. In either sort mode, whenever \<open>sort_images\<close> returns, its output is the
  priority files of the input followed by the other files of the input: every
  priority file comes before every other file. The lexical mode always returns, with
  each of the two groups sorted stably by name. With an empty priority string no file
  is a priority file, and the output is the one sort of the whole input list: a
  permutation of the input that is sorted, by name in the lexical mode (it is the
  stable sort of the input by name) and by the comparison of the natural keys in the
  natural mode.
\<close>

theorem priority_files_come_first:
  "(sort_images fs use_nat pc = Inr out \<longrightarrow>
      (\<exists>ps ns. out = ps @ ns
         \<and> (\<forall>x\<in>set ps. is_priority pc x) \<and> (\<forall>x\<in>set ns. \<not> is_priority pc x)
         \<and> set ps = {x \<in> set fs. is_priority pc x}
         \<and> set ns = {x \<in> set fs. \<not> is_priority pc x}))
   \<and> sort_images fs False pc
       = Inr (sort_key path_name (filter (is_priority pc) fs)
            @ sort_key path_name (filter (\<lambda>x. \<not> is_priority pc x) fs))
   \<and> \<not> is_priority [] x
   \<and> sort_images fs use_nat [] =
       (if use_nat then py_sort key_lt get_natural_sort_key fs else py_sort str_lt get_name_key fs)
   \<and> sort_images fs False [] = Inr (sort_key path_name fs)
   \<and> (sort_images fs use_nat [] = Inr out \<longrightarrow>
        mset out = mset fs
        \<and> (if use_nat then out = sort_key nkey fs \<and> sorted_wrt natural_le out
            else sorted (map path_name out)))"
proof -
  have np: "is_priority [] = (\<lambda>x. False)" by (rule ext) (simp add: is_priority_def)
  have c1: "\<exists>ps ns. out = ps @ ns
         \<and> (\<forall>x\<in>set ps. is_priority pc x) \<and> (\<forall>x\<in>set ns. \<not> is_priority pc x)
         \<and> set ps = {x \<in> set fs. is_priority pc x}
         \<and> set ns = {x \<in> set fs. \<not> is_priority pc x}"
    if "sort_images fs use_nat pc = Inr out"
  proof -
    from sort_images_split [OF that] obtain ps ns where o: "out = ps @ ns"
      and p: "mset ps = mset (filter (is_priority pc) fs)"
      and n: "mset ns = mset (filter (\<lambda>x. \<not> is_priority pc x) fs)" by blast
    have sp: "set ps = {x \<in> set fs. is_priority pc x}"
      using mset_eq_setD [OF p] by simp
    have sn: "set ns = {x \<in> set fs. \<not> is_priority pc x}"
      using mset_eq_setD [OF n] by simp
    show ?thesis using o sp sn by blast
  qed
  have c2: "sort_images fs False pc
       = Inr (sort_key path_name (filter (is_priority pc) fs)
            @ sort_key path_name (filter (\<lambda>x. \<not> is_priority pc x) fs))"
    by (rule sort_images_lexical)
  have c3: "\<not> is_priority [] x" by (simp add: is_priority_def)
  have c4: "sort_images fs use_nat [] =
       (if use_nat then py_sort key_lt get_natural_sort_key fs else py_sort str_lt get_name_key fs)"
    by (simp add: sort_images_def np py_sort_Nil sum_case_id del: append_Nil)
  have c5: "sort_images fs False [] = Inr (sort_key path_name fs)"
    by (simp add: sort_images_lexical np)
  have c6: "mset out = mset fs
        \<and> (if use_nat then out = sort_key nkey fs \<and> sorted_wrt natural_le out
            else sorted (map path_name out))"
    if r: "sort_images fs use_nat [] = Inr out"
  proof (cases use_nat)
    case True
    with r have keys: "\<forall>x\<in>set fs. get_natural_sort_key x = Inr (nkey x)"
      and o: "out = sort_key nkey fs"
      by (simp_all add: sort_images_natural np)
    show ?thesis
      using True o sorted_wrt_natural_le [OF keys] sort_images_mset [OF r] by simp
  next
    case False
    with r c5 have "out = sort_key path_name fs" by simp
    then show ?thesis using False by simp
  qed
  show ?thesis using c1 c2 c3 c4 c5 c6 by blast
qed

theorem priority_files_come_first_witness:
  "(\<exists>ps ns. [''!b.png'', ''a10.jpg'', ''a9.jpg''] = ps @ ns
         \<and> (\<forall>x\<in>set ps. is_priority ''!'' x) \<and> (\<forall>x\<in>set ns. \<not> is_priority ''!'' x)
         \<and> set ps = {x \<in> set [''a9.jpg'', ''!b.png'', ''a10.jpg'']. is_priority ''!'' x}
         \<and> set ns = {x \<in> set [''a9.jpg'', ''!b.png'', ''a10.jpg'']. \<not> is_priority ''!'' x})
   \<and> sort_images [''b.jpg'', ''a9.jpg'', ''!c.jpg'', ''a10.jpg''] False []
       = Inr [''!c.jpg'', ''a10.jpg'', ''a9.jpg'', ''b.jpg'']
   \<and> sorted (map path_name [''!c.jpg'', ''a10.jpg'', ''a9.jpg'', ''b.jpg''])
   \<and> sorted_wrt natural_le [''!c.jpg'', ''a9.jpg'', ''a10.jpg'', ''b.jpg'']
   \<and> mset [''!c.jpg'', ''a9.jpg'', ''a10.jpg'', ''b.jpg'']
       = mset [''b.jpg'', ''a9.jpg'', ''!c.jpg'', ''a10.jpg'']"
proof -
  have "sort_images [''a9.jpg'', ''!b.png'', ''a10.jpg''] False ''!''
      = Inr [''!b.png'', ''a10.jpg'', ''a9.jpg'']" by code_simp
  then have w1: "\<exists>ps ns. [''!b.png'', ''a10.jpg'', ''a9.jpg''] = ps @ ns
         \<and> (\<forall>x\<in>set ps. is_priority ''!'' x) \<and> (\<forall>x\<in>set ns. \<not> is_priority ''!'' x)
         \<and> set ps = {x \<in> set [''a9.jpg'', ''!b.png'', ''a10.jpg'']. is_priority ''!'' x}
         \<and> set ns = {x \<in> set [''a9.jpg'', ''!b.png'', ''a10.jpg'']. \<not> is_priority ''!'' x}"
    using priority_files_come_first
      [of "[''a9.jpg'', ''!b.png'', ''a10.jpg'']" False "''!''" "[''!b.png'', ''a10.jpg'', ''a9.jpg'']"]
    by blast
  have sk: "sort_key path_name [''b.jpg'', ''a9.jpg'', ''!c.jpg'', ''a10.jpg'']
      = [''!c.jpg'', ''a10.jpg'', ''a9.jpg'', ''b.jpg'']" by code_simp
  have "sort_images [''b.jpg'', ''a9.jpg'', ''!c.jpg'', ''a10.jpg''] False []
      = Inr (sort_key path_name [''b.jpg'', ''a9.jpg'', ''!c.jpg'', ''a10.jpg''])"
    using priority_files_come_first [of "[''b.jpg'', ''a9.jpg'', ''!c.jpg'', ''a10.jpg'']"]
    by blast
  then have lex: "sort_images [''b.jpg'', ''a9.jpg'', ''!c.jpg'', ''a10.jpg''] False []
      = Inr [''!c.jpg'', ''a10.jpg'', ''a9.jpg'', ''b.jpg'']"
    by (simp only: sk)
  have "(if False then [''!c.jpg'', ''a10.jpg'', ''a9.jpg'', ''b.jpg'']
            = sort_key nkey [''b.jpg'', ''a9.jpg'', ''!c.jpg'', ''a10.jpg'']
          \<and> sorted_wrt natural_le [''!c.jpg'', ''a10.jpg'', ''a9.jpg'', ''b.jpg'']
        else sorted (map path_name [''!c.jpg'', ''a10.jpg'', ''a9.jpg'', ''b.jpg'']))"
    using priority_files_come_first
      [of "[''b.jpg'', ''a9.jpg'', ''!c.jpg'', ''a10.jpg'']" False _
          "[''!c.jpg'', ''a10.jpg'', ''a9.jpg'', ''b.jpg'']"] lex
    by blast
  then have w2: "sorted (map path_name [''!c.jpg'', ''a10.jpg'', ''a9.jpg'', ''b.jpg''])"
    by (simp only: if_False)
  have nat: "sort_images [''b.jpg'', ''a9.jpg'', ''!c.jpg'', ''a10.jpg''] True []
      = Inr [''!c.jpg'', ''a9.jpg'', ''a10.jpg'', ''b.jpg'']" by code_simp
  have "mset [''!c.jpg'', ''a9.jpg'', ''a10.jpg'', ''b.jpg'']
          = mset [''b.jpg'', ''a9.jpg'', ''!c.jpg'', ''a10.jpg'']
      \<and> (if True then [''!c.jpg'', ''a9.jpg'', ''a10.jpg'', ''b.jpg'']
            = sort_key nkey [''b.jpg'', ''a9.jpg'', ''!c.jpg'', ''a10.jpg'']
          \<and> sorted_wrt natural_le [''!c.jpg'', ''a9.jpg'', ''a10.jpg'', ''b.jpg'']
        else sorted (map path_name [''!c.jpg'', ''a9.jpg'', ''a10.jpg'', ''b.jpg'']))"
    using priority_files_come_first
      [of "[''b.jpg'', ''a9.jpg'', ''!c.jpg'', ''a10.jpg'']" True _
          "[''!c.jpg'', ''a9.jpg'', ''a10.jpg'', ''b.jpg'']"] nat
    by blast
  then have w3: "sorted_wrt natural_le [''!c.jpg'', ''a9.jpg'', ''a10.jpg'', ''b.jpg'']
      \<and> mset [''!c.jpg'', ''a9.jpg'', ''a10.jpg'', ''b.jpg'']
          = mset [''b.jpg'', ''a9.jpg'', ''!c.jpg'', ''a10.jpg'']"
    unfolding if_True by blast
  show ?thesis using w1 lex w2 w3 by blast
qed

text \<open>
  Claim C3, as amended. With natural sort on, two files of the same priority group whose
  names have the same natural-sort key (such as \<open>001\<close> and \<open>1\<close>) come out in the order
  they had in the input: the output, restricted to the two, is the input restricted to
  the two. No comparison of the names as strings takes part.
\<close>

theorem equal_natural_keys_keep_input_order:
  assumes "sort_images fs True pc = Inr out"
    and "get_natural_sort_key x = get_natural_sort_key y"
    and "is_priority pc x = is_priority pc y"
  shows "filter (\<lambda>z. z = x \<or> z = y) out = filter (\<lambda>z. z = x \<or> z = y) fs"
proof -
  let ?Q = "\<lambda>z. z = x \<or> z = y"
  let ?P = "filter (is_priority pc) fs"
  let ?N = "filter (\<lambda>x. \<not> is_priority pc x) fs"
  have k: "nkey y = nkey x" using assms(2) by (simp add: nkey_def)
  have fq: "filter ?Q (filter (\<lambda>z. nkey z = nkey x) l) = filter ?Q l" for l
    using k by (induction l) auto
  have stable: "filter ?Q (sort_key nkey G) = filter ?Q G" for G
  proof -
    have "filter ?Q (sort_key nkey G) = filter ?Q (filter (\<lambda>z. nkey z = nkey x) (sort_key nkey G))"
      by (simp only: fq)
    also have "\<dots> = filter ?Q (filter (\<lambda>z. nkey z = nkey x) G)"
      by (simp only: sort_key_stable)
    also have "\<dots> = filter ?Q G" by (simp only: fq)
    finally show ?thesis .
  qed
  have o: "out = sort_key nkey ?P @ sort_key nkey ?N"
    using assms(1) by (simp add: sort_images_natural)
  have "filter ?Q out = filter ?Q ?P @ filter ?Q ?N"
    unfolding o by (simp only: filter_append stable)
  also have "\<dots> = filter ?Q fs"
  proof (cases "is_priority pc x")
    case True
    then have "is_priority pc y" using assms(3) by simp
    with True have "filter ?Q ?N = []" "filter ?Q ?P = filter ?Q fs"
      by (induction fs) auto
    then show ?thesis by simp
  next
    case False
    then have "\<not> is_priority pc y" using assms(3) by simp
    with False have "filter ?Q ?P = []" "filter ?Q ?N = filter ?Q fs"
      by (induction fs) auto
    then show ?thesis by simp
  qed
  finally show ?thesis .
qed

theorem equal_natural_keys_keep_input_order_witness:
  "filter (\<lambda>z. z = ''1'' \<or> z = ''001'') [''0'', ''1'', ''001'']
     = filter (\<lambda>z. z = ''1'' \<or> z = ''001'') [''1'', ''0'', ''001'']"
proof -
  have a: "sort_images [''1'', ''0'', ''001''] True ''!'' = Inr [''0'', ''1'', ''001'']"
    by code_simp
  have b: "get_natural_sort_key ''1'' = get_natural_sort_key ''001''" by code_simp
  have c: "is_priority ''!'' ''1'' = is_priority ''!'' ''001''" by code_simp
  show ?thesis by (rule equal_natural_keys_keep_input_order [OF a b c])
qed

text \<open>
  Claim C3 as stated fails: \<open>1\<close> and \<open>001\<close> have the same key, the string \<open>001\<close> is
  smaller than the string \<open>1\<close>, and the output keeps whichever order the input had.
\<close>

theorem zero_padding_tie_counterexample:
  "sort_images [''1'', ''001''] True ''!'' = Inr [''1'', ''001'']
   \<and> sort_images [''001'', ''1''] True ''!'' = Inr [''001'', ''1'']
   \<and> natural_sort_key ''1'' = natural_sort_key ''001''
   \<and> str_lt ''001'' ''1'' = Inr True"
  by code_simp

text \<open>
  Claim C9 at the name \<open>1\<close>, U+00B2, \<open>3.jpg\<close>: the split leaves the superscript two as
  a chunk of its own, \<open>isdigit\<close> holds of it, \<open>int\<close> raises, and \<open>sort_images\<close> returns no
  list. (Whenever \<open>sort_images\<close> returns, its output is a permutation of the input:
  \<open>sort_images_mset\<close>; it returns when no name has such a character:
  \<open>sort_images_returns\<close>.)
\<close>

theorem superscript_digit_name_raises:
  "sort_images [[CHR ''1'', CHR 0xB2, CHR ''3'', CHR ''.'', CHR ''j'', CHR ''p'', CHR ''g'']] True ''!''
     = Inl ValueError"
  by code_simp

lemma map_result_Inl: "map_result f xs = Inl e \<Longrightarrow> \<exists>x\<in>set xs. f x = Inl e"
  by (induction xs) (auto split: sum.splits)

lemma convert_error: "convert c = Inl e \<Longrightarrow> e = ValueError"
  by (auto simp: convert_def py_int_def split: if_splits sum.splits)

lemma natural_sort_key_error: "natural_sort_key t = Inl e \<Longrightarrow> e = ValueError"
  unfolding natural_sort_key_def by (auto dest!: map_result_Inl convert_error)

lemma natural_py_sort_error:
  "py_sort key_lt get_natural_sort_key xs = Inl e \<Longrightarrow> e = ValueError"
proof (cases "map_result get_natural_sort_key xs")
  case (Inl e')
  assume a: "py_sort key_lt get_natural_sort_key xs = Inl e"
  with Inl have "e' = e" by (simp add: py_sort_def)
  moreover from map_result_Inl [OF Inl] have "e' = ValueError"
    by (auto simp: get_natural_sort_key_def dest: natural_sort_key_error)
  ultimately show ?thesis by simp
next
  case (Inr ks)
  assume a: "py_sort key_lt get_natural_sort_key xs = Inl e"
  from map_result_Inr [OF Inr] have "\<forall>x\<in>set xs. get_natural_sort_key x = Inr (nkey x)"
    by (simp add: nkey_def)
  from natural_sort_sort_key [OF this] a show ?thesis by simp
qed

text \<open>
  Claim C10. A key that \<open>natural_sort_key\<close> returns has a string at every even index
  and an integer at every odd index; comparing two such keys never raises, so an
  integer is never compared with a string; and \<open>sort_images\<close> never ends in a
  \<open>TypeError\<close>, for any input list, sort mode and priority string.
\<close>

theorem natural_keys_never_compare_int_with_str:
  "(natural_sort_key a = Inr ka \<longrightarrow>
      (\<forall>i<length ka. (even i \<longrightarrow> (\<exists>s. ka ! i = S s)) \<and> (odd i \<longrightarrow> (\<exists>n. ka ! i = I n))))
   \<and> (natural_sort_key a = Inr ka \<longrightarrow> natural_sort_key b = Inr kb \<longrightarrow>
        (\<exists>r. key_lt ka kb = Inr r))
   \<and> sort_images fs use_nat pc \<noteq> Inl TypeError"
proof -
  have shape: "\<forall>i<length ka. (even i \<longrightarrow> (\<exists>s. ka ! i = S s)) \<and> (odd i \<longrightarrow> (\<exists>n. ka ! i = I n))"
    if "natural_sort_key a = Inr ka"
    using key_shape_nth [OF natural_sort_key_shape [OF that]] by blast
  have cmp: "\<exists>r. key_lt ka kb = Inr r"
    if "natural_sort_key a = Inr ka" "natural_sort_key b = Inr kb"
  proof -
    have "key_lt ka kb = Inr (ka < kb)"
      using that key_lt_shape natural_sort_key_shape by blast
    then show ?thesis by blast
  qed
  have srt: "sort_images fs use_nat pc \<noteq> Inl TypeError"
  proof (cases use_nat)
    case True
    then show ?thesis
      by (auto simp: sort_images_def Let_def split: sum.splits dest: natural_py_sort_error)
  next
    case False
    then show ?thesis by (simp add: sort_images_lexical)
  qed
  show ?thesis using shape cmp srt by blast
qed

theorem natural_keys_never_compare_int_with_str_witness:
  "(\<exists>s. [S ''a'', I 1, S ''''] ! 0 = S s) \<and> (\<exists>n. [S ''a'', I 1, S ''''] ! 1 = I n)
   \<and> (\<exists>r. key_lt [S ''a'', I 1, S ''''] [S '''', I 12, S ''a''] = Inr r)
   \<and> sort_images [''a1'', ''12a''] True ''!'' \<noteq> Inl TypeError"
proof -
  have a: "natural_sort_key ''a1'' = Inr [S ''a'', I 1, S '''']" by code_simp
  have b: "natural_sort_key ''12a'' = Inr [S '''', I 12, S ''a'']" by code_simp
  note t = natural_keys_never_compare_int_with_str
    [of "''a1''" "[S ''a'', I 1, S '''']" "''12a''" "[S '''', I 12, S ''a'']"
        "[''a1'', ''12a'']" True "''!''"]
  from t a have sh: "\<forall>i<length [S ''a'', I 1, S ''''].
      (even i \<longrightarrow> (\<exists>s. [S ''a'', I 1, S ''''] ! i = S s))
      \<and> (odd i \<longrightarrow> (\<exists>n. [S ''a'', I 1, S ''''] ! i = I n))"
    by blast
  from sh [rule_format, of 0] have c0: "\<exists>s. [S ''a'', I 1, S ''''] ! 0 = S s" by simp
  from sh [rule_format, of 1] have c1: "\<exists>n. [S ''a'', I 1, S ''''] ! 1 = I n" by simp
  from t a b have c2: "\<exists>r. key_lt [S ''a'', I 1, S ''''] [S '''', I 12, S ''a''] = Inr r"
    by blast
  from t have c3: "sort_images [''a1'', ''12a''] True ''!'' \<noteq> Inl TypeError" by blast
  show ?thesis using c0 c1 c2 c3 by blast
qed

text \<open>
  Claim C7, as amended. Concatenating the chunks of the split gives the input back, and
  the number of chunks is odd for every input; a key that \<open>natural_sort_key\<close> returns
  has one segment for each chunk.
\<close>

theorem natural_sort_key_segments:
  "concat (re_split text) = text \<and> odd (length (re_split text))
   \<and> (natural_sort_key text = Inr key \<longrightarrow> length key = length (re_split text))"
  by (auto simp: re_split_concat re_split_odd natural_sort_key_def dest: map_result_length)

theorem natural_sort_key_segments_witness:
  "concat (re_split ''a1'') = ''a1'' \<and> odd (length (re_split ''a1''))
   \<and> length [S ''a'', I 1, S ''''] = length (re_split ''a1'')"
proof -
  have a: "natural_sort_key ''a1'' = Inr [S ''a'', I 1, S '''']" by code_simp
  show ?thesis using natural_sort_key_segments [of "''a1''" "[S ''a'', I 1, S '''']"] a by blast
qed

text \<open>
  Claim C7 as stated fails: the input \<open>1\<close> starts and ends with a digit and has three
  segments, an odd number.
\<close>

theorem segment_count_counterexample:
  "natural_sort_key ''1'' = Inr [S '''', I 1, S ''''] \<and> odd (length [S '''', I 1, S ''''])
   \<and> re_digit (hd ''1'') \<and> re_digit (last ''1'')"
  by code_simp

lemma convert_plain:
  assumes "\<forall>c\<in>set chunk. chr_isdigit c \<longrightarrow> re_digit c"
  shows "\<exists>k. convert chunk = Inr k"
proof (cases "isdigit chunk")
  case True
  then have "chunk \<noteq> []" "list_all re_digit chunk"
    using assms by (auto simp: isdigit_def list_all_iff)
  then show ?thesis using True by (simp add: convert_def py_int_def)
next
  case False
  then show ?thesis by (simp add: convert_def)
qed

lemma natural_sort_key_plain:
  assumes "\<forall>c\<in>set t. chr_isdigit c \<longrightarrow> re_digit c"
  shows "\<exists>k. natural_sort_key t = Inr k"
proof -
  have "set chunk \<subseteq> set t" if "chunk \<in> set (re_split t)" for chunk
  proof -
    have "set chunk \<subseteq> set (concat (re_split t))" using that by auto
    then show ?thesis by (simp only: re_split_concat)
  qed
  then have "convert chunk = Inr (projr (convert chunk))" if "chunk \<in> set (re_split t)" for chunk
    using that assms convert_plain [of chunk] by fastforce
  then have "map_result convert (re_split t) = Inr (map (\<lambda>c. projr (convert c)) (re_split t))"
    by (rule map_result_total)
  then show ?thesis by (simp add: natural_sort_key_def)
qed

lemma sort_images_returns:
  assumes "\<forall>x\<in>set fs. \<forall>c\<in>set (path_name x). chr_isdigit c \<longrightarrow> re_digit c"
  shows "\<exists>out. sort_images fs True pc = Inr out"
proof -
  have "get_natural_sort_key x = Inr (nkey x)" if "x \<in> set fs" for x
    using that assms natural_sort_key_plain [of "path_name x"]
    by (auto simp: get_natural_sort_key_def nkey_def)
  then show ?thesis by (simp add: sort_images_natural)
qed

section \<open>Lemmas on the extraction\<close>









lemma first_pass_error: "first_pass es t i out = (out', Inl e) \<Longrightarrow> e = ValueError"
  by (induction es arbitrary: t i out) (auto split: if_splits)

lemma first_pass_over:
  "MAX_EXTRACTED_SIZE_BYTES < t + sum_list (map file_size (filter qualifying es))
   \<Longrightarrow> t \<le> MAX_EXTRACTED_SIZE_BYTES
   \<Longrightarrow> \<exists>out'. first_pass es t i out = (out', Inl ValueError)"
proof (induction es arbitrary: t i out)
  case Nil
  then show ?case by simp
next
  case (Cons e es)
  show ?case
  proof (cases "qualifying e")
    case True
    show ?thesis
    proof (cases "t + file_size e > MAX_EXTRACTED_SIZE_BYTES")
      case over: True
      then show ?thesis using True by (simp add: qualifying_def suspicious_def)
    next
      case False
      have "MAX_EXTRACTED_SIZE_BYTES < (t + file_size e) + sum_list (map file_size (filter qualifying es))"
        using Cons.prems True by (simp add: add.assoc)
      moreover have "t + file_size e \<le> MAX_EXTRACTED_SIZE_BYTES" using False by simp
      ultimately have "\<exists>out'. first_pass es (t + file_size e) (i @ [e]) out = (out', Inl ValueError)"
        by (rule Cons.IH)
      then show ?thesis
        using True False by (simp add: qualifying_def suspicious_def)
    qed
  next
    case False
    then have "MAX_EXTRACTED_SIZE_BYTES < t + sum_list (map file_size (filter qualifying es))"
      using Cons.prems by simp
    then have "\<exists>out'. first_pass es t i lg = (out', Inl ValueError)" for lg
      using Cons.prems(2) by (rule Cons.IH)
    then show ?thesis
      using False by (auto simp: qualifying_def suspicious_def)
  qed
qed



lemma first_pass_log_mono: "first_pass es t i out = (out', r) \<Longrightarrow> \<exists>ext. out' = out @ ext"
proof (induction es arbitrary: t i out)
  case Nil
  then show ?case by simp
next
  case (Cons e es)
  consider (a) "first_pass es t i out = (out', r)"
    | (b) "first_pass es t i (out @ [Warn_suspicious_path (filename e)]) = (out', r)"
    | (c) "out' = out"
    | (d) "first_pass es (t + file_size e) (i @ [e]) out = (out', r)"
    using Cons.prems by (auto split: if_splits)
  then show ?case
  proof cases
    case a
    then show ?thesis by (rule Cons.IH)
  next
    case b
    from Cons.IH [OF this] show ?thesis by auto
  next
    case c
    then show ?thesis by simp
  next
    case d
    then show ?thesis by (rule Cons.IH)
  qed
qed

lemma first_pass_warns:
  assumes "first_pass es t i out = (out', Inr infos)" and "e \<in> set es"
    and "\<not> is_dir e" and "suspicious (filename e)"
  shows "Warn_suspicious_path (filename e) \<in> set out'"
  using assms(1,2)
proof (induction es arbitrary: t i out)
  case Nil
  then show ?case by simp
next
  case (Cons x xs)
  show ?case
  proof (cases "x = e")
    case True
    then have "first_pass xs t i (out @ [Warn_suspicious_path (filename e)]) = (out', Inr infos)"
      using Cons.prems(1) assms(3,4) by (simp add: suspicious_def)
    from first_pass_log_mono [OF this] show ?thesis by auto
  next
    case False
    then have e: "e \<in> set xs" using Cons.prems(2) by simp
    consider (a) "first_pass xs t i out = (out', Inr infos)"
      | (b) "first_pass xs t i (out @ [Warn_suspicious_path (filename x)]) = (out', Inr infos)"
      | (d) "first_pass xs (t + file_size x) (i @ [x]) out = (out', Inr infos)"
      using Cons.prems(1) by (auto split: if_splits)
    then show ?thesis
    proof cases
      case a
      then show ?thesis using e by (rule Cons.IH)
    next
      case b
      then show ?thesis using e by (rule Cons.IH)
    next
      case d
      then show ?thesis using e by (rule Cons.IH)
    qed
  qed
qed








text \<open>
  Claim C4. When the declared sizes of the qualifying entries of an archive add up to
  more than \<open>MAX_EXTRACTED_SIZE_BYTES\<close>, \<open>extract_images_from_zip\<close> returns the empty
  list, has extracted nothing, and the last message printed is the security error.
\<close>

theorem size_limit_aborts_extraction:
  assumes "MAX_EXTRACTED_SIZE_BYTES < sum_list (map file_size (filter qualifying filelist))"
  shows "returned (extract_images_from_zip (Inr filelist) temp_dir extract_raises use_nat pc) = []
    \<and> written (extract_images_from_zip (Inr filelist) temp_dir extract_raises use_nat pc) = []
    \<and> last (printed (extract_images_from_zip (Inr filelist) temp_dir extract_raises use_nat pc))
        = Security_error"
proof -
  have "MAX_EXTRACTED_SIZE_BYTES < 0 + sum_list (map file_size (filter qualifying filelist))"
    using assms by simp
  from first_pass_over [OF this, of "[]" "[]"]
  obtain out' where "first_pass filelist 0 [] [] = (out', Inl ValueError)" by auto
  then show ?thesis by (simp add: extract_images_from_zip_def handler_def)
qed

theorem size_limit_aborts_extraction_witness:
  "returned (extract_images_from_zip
      (Inr [\<lparr>filename = ''a.jpg'', file_size = 400 * 1024 * 1024\<rparr>,
            \<lparr>filename = ''notes.txt'', file_size = 300 * 1024 * 1024\<rparr>,
            \<lparr>filename = ''b.png'', file_size = 200 * 1024 * 1024\<rparr>])
      \<lparr>root = ''/'', tail = [''tmp'', ''x'']\<rparr> (\<lambda>_. None) True ''!'') = []
   \<and> written (extract_images_from_zip
      (Inr [\<lparr>filename = ''a.jpg'', file_size = 400 * 1024 * 1024\<rparr>,
            \<lparr>filename = ''notes.txt'', file_size = 300 * 1024 * 1024\<rparr>,
            \<lparr>filename = ''b.png'', file_size = 200 * 1024 * 1024\<rparr>])
      \<lparr>root = ''/'', tail = [''tmp'', ''x'']\<rparr> (\<lambda>_. None) True ''!'') = []
   \<and> last (printed (extract_images_from_zip
      (Inr [\<lparr>filename = ''a.jpg'', file_size = 400 * 1024 * 1024\<rparr>,
            \<lparr>filename = ''notes.txt'', file_size = 300 * 1024 * 1024\<rparr>,
            \<lparr>filename = ''b.png'', file_size = 200 * 1024 * 1024\<rparr>])
      \<lparr>root = ''/'', tail = [''tmp'', ''x'']\<rparr> (\<lambda>_. None) True ''!'')) = Security_error"
proof -
  have a: "qualifying \<lparr>filename = ''a.jpg'', file_size = n\<rparr>" for n
  proof -
    have "is_image_file ''a.jpg''" by code_simp
    moreover have "\<not> suspicious ''a.jpg''" by code_simp
    ultimately show ?thesis by (simp add: qualifying_def is_dir_def)
  qed
  have b: "qualifying \<lparr>filename = ''b.png'', file_size = n\<rparr>" for n
  proof -
    have "is_image_file ''b.png''" by code_simp
    moreover have "\<not> suspicious ''b.png''" by code_simp
    ultimately show ?thesis by (simp add: qualifying_def is_dir_def)
  qed
  have c: "\<not> qualifying \<lparr>filename = ''notes.txt'', file_size = n\<rparr>" for n
  proof -
    have "\<not> is_image_file ''notes.txt''" by code_simp
    then show ?thesis by (simp add: qualifying_def)
  qed
  have "MAX_EXTRACTED_SIZE_BYTES < sum_list (map file_size (filter qualifying
      [\<lparr>filename = ''a.jpg'', file_size = 400 * 1024 * 1024\<rparr>,
       \<lparr>filename = ''notes.txt'', file_size = 300 * 1024 * 1024\<rparr>,
       \<lparr>filename = ''b.png'', file_size = 200 * 1024 * 1024\<rparr>]))"
    by (simp add: a b c MAX_EXTRACTED_SIZE_BYTES_def)
  then show ?thesis by (rule size_limit_aborts_extraction)
qed







section \<open>Lemmas on the conversion\<close>





lemma remaining_images_tl: "(if Suc 0 < length xs then tl xs else []) = tl xs"
  by (cases xs) auto





text \<open>
  Claim C6, as amended. \<open>save\<close> is called once, after the loop has composed all pages.
  When the list of paths is empty, the loop ends in an exception, or no page was
  composed, the function returns \<open>False\<close> and the output path is left as it was.
  Otherwise it returns \<open>True\<close> exactly when \<open>save\<close> raises nothing, and the output path
  holds what \<open>save\<close> left there, also when \<open>save\<close> raised: the function itself neither
  writes to a temporary file nor removes a partial one.
\<close>

theorem destination_changes_only_through_save:
  assumes "compose open_image (length image_paths) 1 image_paths []
      [Converting_images (length image_paths)] = ((pages, out), raised)"
  shows "(image_paths = [] \<or> raised \<noteq> None \<or> pages = [] \<longrightarrow>
            \<not> ok (convert_images_to_pdf open_image save image_paths old_file)
            \<and> dest (convert_images_to_pdf open_image save image_paths old_file) = old_file)
    \<and> (image_paths \<noteq> [] \<and> raised = None \<and> pages \<noteq> [] \<longrightarrow>
          ok (convert_images_to_pdf open_image save image_paths old_file)
            = (fst (save (hd pages) (tl pages) old_file) = None)
          \<and> dest (convert_images_to_pdf open_image save image_paths old_file)
            = snd (save (hd pages) (tl pages) old_file))"
proof -
  let ?r = "convert_images_to_pdf open_image save image_paths old_file"
  obtain err after where s: "save (hd pages) (tl pages) old_file = (err, after)"
    by (cases "save (hd pages) (tl pages) old_file")
  have a: "\<not> ok ?r \<and> dest ?r = old_file" if "image_paths = [] \<or> raised \<noteq> None \<or> pages = []"
  proof (cases "image_paths = []")
    case True
    then show ?thesis by (simp add: convert_images_to_pdf_def)
  next
    case False
    with that have "raised \<noteq> None \<or> pages = []" by simp
    then show ?thesis using False assms
      by (cases raised) (auto simp: convert_images_to_pdf_def)
  qed
  have b: "ok ?r = (fst (save (hd pages) (tl pages) old_file) = None)
      \<and> dest ?r = snd (save (hd pages) (tl pages) old_file)"
    if "image_paths \<noteq> [] \<and> raised = None \<and> pages \<noteq> []"
    using that assms s
    by (cases err) (simp_all add: convert_images_to_pdf_def Let_def remaining_images_tl)
  show ?thesis using a b by blast
qed

theorem destination_changes_only_through_save_witness:
  "\<not> ok (convert_images_to_pdf (\<lambda>p. Inl ValueError) (\<lambda>f r old. (None, Some ''pdf''))
        [\<lparr>root = [], tail = [''a.jpg'']\<rparr>] (Some ''previous''))
   \<and> dest (convert_images_to_pdf (\<lambda>p. Inl ValueError) (\<lambda>f r old. (None, Some ''pdf''))
        [\<lparr>root = [], tail = [''a.jpg'']\<rparr>] (Some ''previous'')) = Some ''previous''
   \<and> ok (convert_images_to_pdf (\<lambda>p. Inr \<lparr>mode = Mode_other, pixels = 0\<rparr>)
        (\<lambda>f r old. (None, Some ''pdf'')) [\<lparr>root = [], tail = [''a.jpg'']\<rparr>] (Some ''previous''))
   \<and> dest (convert_images_to_pdf (\<lambda>p. Inr \<lparr>mode = Mode_other, pixels = 0\<rparr>)
        (\<lambda>f r old. (None, Some ''pdf'')) [\<lparr>root = [], tail = [''a.jpg'']\<rparr>] (Some ''previous''))
       = Some ''pdf''"
proof -
  let ?a = "\<lparr>root = [], tail = [''a.jpg'']\<rparr>"
  let ?save = "\<lambda>(f :: prepared) (r :: prepared list) (old :: string option). (None :: error option, Some ''pdf'')"
  have c1: "compose (\<lambda>p. Inl ValueError) (length [?a]) 1 [?a] [] [Converting_images (length [?a])]
      = (([], [Converting_images 1, Converting_image 1 1 ''a.jpg'']), Some ValueError)"
    by (simp add: name_def)
  have c2: "compose (\<lambda>p. Inr \<lparr>mode = Mode_other, pixels = 0\<rparr>) (length [?a]) 1 [?a] []
        [Converting_images (length [?a])]
      = (([To_rgb \<lparr>mode = Mode_other, pixels = 0\<rparr>],
          [Converting_images 1, Converting_image 1 1 ''a.jpg'']), None)"
    by (simp add: name_def normalise_def)
  from destination_changes_only_through_save [OF c1, of ?save "Some ''previous''"]
  have r1: "\<not> ok (convert_images_to_pdf (\<lambda>p. Inl ValueError) ?save [?a] (Some ''previous''))
      \<and> dest (convert_images_to_pdf (\<lambda>p. Inl ValueError) ?save [?a] (Some ''previous''))
          = Some ''previous''"
    by simp
  from destination_changes_only_through_save [OF c2, of ?save "Some ''previous''"]
  have r2: "ok (convert_images_to_pdf (\<lambda>p. Inr \<lparr>mode = Mode_other, pixels = 0\<rparr>) ?save [?a]
          (Some ''previous''))
      \<and> dest (convert_images_to_pdf (\<lambda>p. Inr \<lparr>mode = Mode_other, pixels = 0\<rparr>) ?save [?a]
          (Some ''previous'')) = Some ''pdf''"
    by simp
  show ?thesis using r1 r2 by simp
qed

text \<open>
  Claim C6 as stated fails: when \<open>save\<close> raises after it has written part of the file,
  the function returns \<open>False\<close> and the output path holds the partial file, not the
  file that was there before.
\<close>

theorem failed_save_leaves_partial_file_counterexample:
  "\<not> ok (convert_images_to_pdf (\<lambda>p. Inr \<lparr>mode = Mode_RGB, pixels = 0\<rparr>)
        (\<lambda>f r old. (Some OSError, Some ''truncated''))
        [\<lparr>root = [], tail = [''a.jpg'']\<rparr>] (Some ''previous''))
   \<and> dest (convert_images_to_pdf (\<lambda>p. Inr \<lparr>mode = Mode_RGB, pixels = 0\<rparr>)
        (\<lambda>f r old. (Some OSError, Some ''truncated''))
        [\<lparr>root = [], tail = [''a.jpg'']\<rparr>] (Some ''previous'')) = Some ''truncated''"
  by (simp add: convert_images_to_pdf_def name_def normalise_def)

end
